theory Spec2Isabelle
  imports Complex_Main "HOL-Library.Word" "HOL-Library.Product_Lexorder"
begin

unbundle bit_operations_syntax

section \<open>The line decoder of vbi.py\<close>

text \<open>
  The decoder works on numpy arrays of floats and of unsigned bytes. Bytes are
  \<open>8 word\<close>; sample values, grid positions and errors are idealised as \<open>real\<close>
  (only their order and their arithmetic matter below). The numerical library
  functions the decoder calls (scipy's gaussian filter and linear interpolator,
  util.normalise) are not part of the sources: they are parameters, collected
  in a record.
\<close>

type_synonym u8 = "8 word"

datatype py_error = IndexError | ValueError | AttributeError

record numlib =
  gauss :: "real list \<Rightarrow> real \<Rightarrow> real list"
  interp1d :: "real list \<Rightarrow> real list \<Rightarrow> real \<Rightarrow> real list \<Rightarrow> real list"
  normalise :: "real list \<Rightarrow> real list"

text \<open>
  A finder (module finders, not among the sources) is used through three
  attributes: \<open>find(packet)\<close>, which answers whether the packet matches and
  remembers the packet, \<open>possible_bytes\<close>, and \<open>fixup()\<close>, which builds the
  final packet from the packet last given to \<open>find\<close>.

  The fields of a \<open>Vbi\<close> object. The attribute \<open>target\<close> does not exist
  before \<open>deconvolve\<close> assigns it: it is \<open>None\<close> until then, and reading it
  raises AttributeError. The two result buffers \<open>_bytes\<close> and
  \<open>_oldbytes\<close> are references to arrays: \<open>arrays\<close> is the store, and
  \<open>bytes_ref\<close> and \<open>oldbytes_ref\<close> are the addresses the two attributes are
  bound to, so that binding both attributes to one array is expressible.
\<close>

record finder =
  find :: "u8 list \<Rightarrow> bool"
  finder_possible_bytes :: "u8 list list"
  fixup :: "u8 list \<Rightarrow> u8 list"

record vbi_state =
  vbi :: "real list"
  finders :: "finder list"
  black :: real
  scale :: real
  guess :: "real list"
  mask_buf :: "real list"
  mask0 :: "u8 list"
  mask1 :: "u8 list"
  bitwidth :: real
  offset :: real
  gauss_sd :: real
  interp_x :: "real list"
  guess_x :: "real list"
  possible_bytes :: "u8 list list"
  half_possible_bytes :: "u8 list list"
  target :: "real list option"
  arrays :: "nat \<Rightarrow> u8 list"
  bytes_ref :: nat
  oldbytes_ref :: nat
  count :: nat
  it :: nat

subsection \<open>setbyte\<close>

text \<open>
  Modelled from the spec: util.setbyte is imported by vbi.py and is not among the
  sources. The spec: it writes byte \<open>b\<close> into the expanded bit-level buffer at
  byte position \<open>n+1\<close> (accounting for the one-byte pre-padding), low bit first,
  bit value 0 as 0 and bit value 1 as 255, across 8 consecutive positions. The
  decoder calls it with \<open>n\<close> from -1 to 45 only, which is inside the 47-byte
  buffer.
\<close>

definition bit_level :: "u8 \<Rightarrow> nat \<Rightarrow> real" where
  "bit_level b j = (if bit b j then 255 else 0)"

definition setbyte :: "real list \<Rightarrow> int \<Rightarrow> u8 \<Rightarrow> real list" where
  "setbyte buf n b =
     fold (\<lambda>j g. g[nat ((n + 1) * 8) + j := bit_level b j]) [0..<8] buf"

text \<open>The byte position \<open>n\<close> of a buffer, as the eight levels it holds.\<close>

definition byte_levels :: "real list \<Rightarrow> int \<Rightarrow> real list" where
  "byte_levels buf n = take 8 (drop (nat ((n + 1) * 8)) buf)"

subsection \<open>make_possible_bytes\<close>

definition admissible :: "u8 \<Rightarrow> u8 \<Rightarrow> u8 \<Rightarrow> bool" where
  "admissible m0 m1 x \<longleftrightarrow> (x AND m0) = x \<and> x = (x OR m1)"

definition masked :: "vbi_state \<Rightarrow> u8 list \<Rightarrow> nat \<Rightarrow> u8 list" where
  "masked s b n = filter (admissible (mask0 s ! n) (mask1 s ! n)) b"

text \<open>
  \<open>masked(b,n) or b\<close> keeps the seed alphabet when the filtered list is empty.
  Reading \<open>_mask0[n]\<close> or \<open>_mask1[n]\<close> past the end of the array raises
  IndexError, which happens when there are more alphabets than mask bytes.
  \<open>list(set(...))\<close> drops the duplicates; the order Python gives the result is
  not specified and nothing below depends on it.
\<close>

definition make_possible_bytes :: "vbi_state \<Rightarrow> u8 list list \<Rightarrow> py_error + vbi_state" where
  "make_possible_bytes s pb =
     (if length pb > length (mask0 s) \<or> length pb > length (mask1 s) then Inl IndexError
      else
        let pbs = map (\<lambda>(n, b). if masked s b n \<noteq> [] then masked s b n else b)
                      (enumerate 0 pb)
        in Inr (s\<lparr>possible_bytes := pbs,
                 half_possible_bytes := map (\<lambda>b. remdups (map (\<lambda>x. x AND 0x1f) b)) pbs\<rparr>))"

subsection \<open>_deconvolve\<close>

text \<open>
  The rendered guess: \<open>a = normalise(gauss(guess_scaler(_guess_x), _gauss_sd))\<close>.
  The interpolator was built over \<open>_interp_x\<close> and the guess array itself
  (\<open>copy=False\<close>) with fill value 0, so it always reads the current guess.
\<close>

definition render :: "numlib \<Rightarrow> vbi_state \<Rightarrow> real list" where
  "render L s = normalise L (gauss L (interp1d L (interp_x s) (guess s) 0 (guess_x s)) (gauss_sd s))"

text \<open>
  The difference of two one-dimensional numpy arrays: element by element when
  the lengths agree, an operand of one entry is broadcast over the other, and
  any other pair of lengths raises ValueError.
\<close>

definition np_sub :: "real list \<Rightarrow> real list \<Rightarrow> py_error + real list" where
  "np_sub a t =
     (if length a = length t then Inr (map (\<lambda>(x, y). x - y) (zip a t))
      else if length t = 1 then Inr (map (\<lambda>x. x - t ! 0) a)
      else if length a = 1 then Inr (map (\<lambda>y. a ! 0 - y) t)
      else Inl ValueError)"

text \<open>\<open>diff = np.sum(np.square(a - self.target))\<close>.\<close>

definition diff :: "numlib \<Rightarrow> vbi_state \<Rightarrow> py_error + real" where
  "diff L s =
     (case target s of
        None \<Rightarrow> Inl AttributeError
      | Some t \<Rightarrow>
          (case np_sub (render L s) t of
             Inl e \<Rightarrow> Inl e
           | Inr d \<Rightarrow> Inr (sum_list (map (\<lambda>x. x\<^sup>2) d))))"

text \<open>
  \<open>setbyte(self.guess, n+3, v)\<close> followed by \<open>self._bytes[n] = v\<close>: the second is
  an update in place of the array \<open>_bytes\<close> is bound to, and raises IndexError
  when the array has no entry \<open>n\<close>.
\<close>

definition commit :: "nat \<Rightarrow> u8 \<Rightarrow> vbi_state \<Rightarrow> py_error + vbi_state" where
  "commit n v s =
     (if n < length (arrays s (bytes_ref s))
      then Inr (s\<lparr>guess := setbyte (guess s) (int n + 3) v,
                  arrays := (arrays s)(bytes_ref s := (arrays s (bytes_ref s))[n := v])\<rparr>)
      else Inl IndexError)"

text \<open>
  The body of the loop over \<open>b2\<close>, the loop over \<open>b2\<close> and the loop over \<open>b1\<close>;
  \<open>ans\<close> collects the triples. An exception in the body ends the loops.
\<close>

definition try_b2 ::
  "numlib \<Rightarrow> nat \<Rightarrow> u8 \<Rightarrow> u8 \<Rightarrow> vbi_state \<times> (real \<times> u8 \<times> u8) list
     \<Rightarrow> py_error + vbi_state \<times> (real \<times> u8 \<times> u8) list" where
  "try_b2 L n b1 b2 = (\<lambda>(s, ans).
     let s' = s\<lparr>count := count s + 1, guess := setbyte (guess s) (int n + 4) b2\<rparr>
     in case diff L s' of
          Inl e \<Rightarrow> Inl e
        | Inr d \<Rightarrow> Inr (s', ans @ [(d, b1, b2)]))"

fun loop_b2 ::
  "numlib \<Rightarrow> nat \<Rightarrow> u8 \<Rightarrow> u8 list \<Rightarrow> vbi_state \<times> (real \<times> u8 \<times> u8) list
     \<Rightarrow> py_error + vbi_state \<times> (real \<times> u8 \<times> u8) list" where
  "loop_b2 L n b1 [] sa = Inr sa"
| "loop_b2 L n b1 (b2 # nnb) sa =
     (case try_b2 L n b1 b2 sa of
        Inl e \<Rightarrow> Inl e
      | Inr sa' \<Rightarrow> loop_b2 L n b1 nnb sa')"

fun loop_b1 ::
  "numlib \<Rightarrow> nat \<Rightarrow> u8 list \<Rightarrow> u8 list \<Rightarrow> vbi_state \<times> (real \<times> u8 \<times> u8) list
     \<Rightarrow> py_error + vbi_state \<times> (real \<times> u8 \<times> u8) list" where
  "loop_b1 L n nnb [] sa = Inr sa"
| "loop_b1 L n nnb (b1 # nb) sa =
     (case loop_b2 L n b1 nnb
             ((fst sa)\<lparr>guess := setbyte (guess (fst sa)) (int n + 3) b1\<rparr>, snd sa) of
        Inl e \<Rightarrow> Inl e
      | Inr sa' \<Rightarrow> loop_b1 L n nnb nb sa')"

definition search :: "numlib \<Rightarrow> nat \<Rightarrow> u8 list \<Rightarrow> u8 list \<Rightarrow> vbi_state
     \<Rightarrow> py_error + vbi_state \<times> (real \<times> u8 \<times> u8) list" where
  "search L n nb nnb s = loop_b1 L n nnb nb (s, [])"

text \<open>
  One position of a sweep. \<open>possible_bytes[n]\<close>, \<open>half_possible_bytes[n+1]\<close>
  and \<open>ans[0]\<close> raise IndexError when the index is out of range; an empty
  alphabet takes the else branch and fails at \<open>ans[0]\<close>. \<open>ans.sort()\<close> orders
  the triples by error, then \<open>b1\<close>, then \<open>b2\<close>.
\<close>

definition deconvolve_position :: "numlib \<Rightarrow> nat \<Rightarrow> vbi_state \<Rightarrow> py_error + vbi_state" where
  "deconvolve_position L n s =
     (if n \<ge> length (possible_bytes s) then Inl IndexError
      else
        let nb = possible_bytes s ! n in
        if length nb = 1 then commit n (nb ! 0) s
        else if n < 41 \<and> n + 1 \<ge> length (half_possible_bytes s) then Inl IndexError
        else
          (case search L n nb (if n < 41 then half_possible_bytes s ! (n + 1) else [0]) s of
             Inl e \<Rightarrow> Inl e
           | Inr (s', ans) \<Rightarrow>
               (case sort ans of
                  [] \<Rightarrow> Inl IndexError
                | (d, b1, b2) # _ \<Rightarrow> commit n b1 s')))"

fun deconvolve_positions :: "numlib \<Rightarrow> nat list \<Rightarrow> vbi_state \<Rightarrow> py_error + vbi_state" where
  "deconvolve_positions L [] s = Inr s"
| "deconvolve_positions L (n # ns) s =
     (case deconvolve_position L n s of
        Inl e \<Rightarrow> Inl e
      | Inr s' \<Rightarrow> deconvolve_positions L ns s')"

text \<open>
  The sweeps of \<open>for it in range(10)\<close>, with the number of sweeps left. After a
  sweep the two arrays are compared; when they differ, \<open>self._oldbytes =
  self._bytes\<close> binds \<open>_oldbytes\<close> to the array of \<open>_bytes\<close> (no copy is made).
\<close>

fun sweeps :: "numlib \<Rightarrow> nat \<Rightarrow> vbi_state \<Rightarrow> py_error + vbi_state" where
  "sweeps L 0 s = Inr s"
| "sweeps L (Suc k) s =
     (case deconvolve_positions L [0..<42] (s\<lparr>it := it s + 1\<rparr>) of
        Inl e \<Rightarrow> Inl e
      | Inr s' \<Rightarrow>
          if arrays s' (bytes_ref s') = arrays s' (oldbytes_ref s') then Inr s'
          else sweeps L k (s'\<lparr>oldbytes_ref := bytes_ref s'\<rparr>))"

definition private_deconvolve :: "numlib \<Rightarrow> vbi_state \<Rightarrow> py_error + vbi_state" where
  "private_deconvolve L s = sweeps L 10 s"


subsection \<open>The alphabets\<close>

text \<open>
  Modelled from the spec: util.paritybytes is not among the sources. The spec:
  the 128 odd-parity bytes, a byte being odd-parity when its number of 1-bits
  is odd.
\<close>

definition odd_parity :: "u8 \<Rightarrow> bool" where
  "odd_parity x \<longleftrightarrow> odd (length (filter (bit x) [0..<8]))"

definition paritybytes :: "u8 list" where
  "paritybytes = filter odd_parity (map of_nat [0..<256])"

text \<open>
  The class attribute \<open>Vbi.possible_bytes = [hammbytes]*2 + [paritybytes]*40\<close>.
  The table util.hammbytes (the Hamming 8/4 codewords) is not among the sources
  and is a parameter.
\<close>

definition class_possible_bytes :: "u8 list \<Rightarrow> u8 list list" where
  "class_possible_bytes hammbytes = replicate 2 hammbytes @ replicate 40 paritybytes"

subsection \<open>Construction\<close>

definition mk_interp_x :: "real \<Rightarrow> real list" where
  "mk_interp_x bw = map (\<lambda>i. real i * bw - bw * 8) [0..<47 * 8]"

definition mk_guess_x :: "real \<Rightarrow> real list" where
  "mk_guess_x off = map (\<lambda>i. real i - off) [0..<2048]"

definition set_bitwidth :: "real \<Rightarrow> vbi_state \<Rightarrow> vbi_state" where
  "set_bitwidth bw s = s\<lparr>bitwidth := bw, interp_x := mk_interp_x bw\<rparr>"

definition set_offset :: "real \<Rightarrow> vbi_state \<Rightarrow> vbi_state" where
  "set_offset off s = s\<lparr>offset := off, guess_x := mk_guess_x off\<rparr>"

definition mean :: "real list \<Rightarrow> real" where
  "mean xs = sum_list xs / real (length xs)"

text \<open>
  \<open>__init__\<close>. The attributes \<open>_bytes\<close>, \<open>_oldbytes\<close> and
  \<open>half_possible_bytes\<close> do not exist before \<open>deconvolve\<close> creates them; the
  record gives them empty values, on which every read of an entry and every
  write of \<open>_bytes[n]\<close> fails. Reading \<open>possible_bytes\<close> on a new object gives
  the class attribute.
\<close>

definition init :: "u8 list \<Rightarrow> real list \<Rightarrow> finder list \<Rightarrow> vbi_state" where
  "init hammbytes v fs =
     set_offset 0 (set_bitwidth 5.112
       \<lparr>vbi = v, finders = fs, black = mean (take 80 v), scale = 0,
        guess = setbyte (setbyte (setbyte (setbyte (replicate (47 * 8) 0) (-1) 0x0) 0 0x55) 1 0x55) 2 0x27,
        mask_buf = setbyte (setbyte (setbyte (setbyte (replicate (47 * 8) 0) (-1) 0xff) 0 0xff) 1 0xff) 2 0xff,
        mask0 = replicate 42 0, mask1 = replicate 42 0,
        bitwidth = 5.112, offset = 0, gauss_sd = 5.5,
        interp_x = replicate 376 0, guess_x = replicate 2048 0,
        possible_bytes = class_possible_bytes hammbytes, half_possible_bytes = [],
        target = None, arrays = (\<lambda>_. []), bytes_ref = 0, oldbytes_ref = 0,
        count = 0, it = 0\<rparr>)"

subsection \<open>make_guess_mask\<close>

text \<open>The while loop that moves the bit position \<open>b\<close> forward.\<close>

function advance :: "real list \<Rightarrow> real \<Rightarrow> nat \<Rightarrow> nat" where
  "advance ix g b = (if b < 368 \<and> g > ix ! (b + 1) then advance ix g (b + 1) else b)"
  by pat_completeness auto
termination
  by (relation "measure (\<lambda>(ix, g, b). 368 - b)") auto

declare advance.simps [simp del]

text \<open>
  The loop over the samples, reading \<open>_interp_x\<close> (\<open>ix\<close>) and the raw line
  (\<open>v\<close>). \<open>gx\<close> is \<open>_guess_x + _bitwidth*0.5 + o\<close>. The
  bucket index \<open>b - 4*8\<close> is never negative, since \<open>b\<close> starts at 32 and only
  grows. \<open>self.vbi[i]\<close> raises IndexError on a line shorter than the index.
\<close>

function fill_buckets ::
  "real list \<Rightarrow> real list \<Rightarrow> real list \<Rightarrow> nat list \<Rightarrow> nat \<times> real list list
     \<Rightarrow> py_error + nat \<times> real list list" where
  "fill_buckets ix v gx [] (b, a) = Inr (b, a)"
| "fill_buckets ix v gx (i # is) (b, a) =
     (let b' = advance ix (gx ! i) b in
      if ix ! b' < gx ! i \<and> b' < 368 then
        (if i < length v
         then fill_buckets ix v gx is (b', a[b' - 4 * 8 := a ! (b' - 4 * 8) @ [v ! i]])
         else Inl IndexError)
      else fill_buckets ix v gx is (b', a))"
  by pat_completeness auto
termination
  by (relation "measure (\<lambda>(ix, v, gx, is, ba). length is)") auto

definition make_buckets :: "vbi_state \<Rightarrow> real \<Rightarrow> py_error + real list list" where
  "make_buckets s o' =
     (let gx = map (\<lambda>x. x + bitwidth s * 0.5 + o') (guess_x s) in
      case fill_buckets (interp_x s) (vbi s) gx [0..<2048] (4 * 8, replicate (42 * 8) []) of
        Inl e \<Rightarrow> Inl e
      | Inr (b, a) \<Rightarrow> Inr a)"

text \<open>
  The loop over the eight bits of byte \<open>i\<close>: \<open>_mask0[i]\<close> starts from 0xff,
  \<open>_mask1[i]\<close> from the value the array holds.
\<close>

definition mask_bit :: "real \<Rightarrow> real list \<Rightarrow> real list \<Rightarrow> nat \<Rightarrow> u8 \<times> u8 \<Rightarrow> u8 \<times> u8" where
  "mask_bit blk mini maxi j = (\<lambda>(m0, m1).
     (if mini ! j < blk + 10 then m0 AND NOT (push_bit j 1) else m0,
      if maxi ! j > blk * 2.5 then m1 OR push_bit j 1 else m1))"

definition mask_byte :: "real \<Rightarrow> real list \<Rightarrow> real list \<Rightarrow> u8 \<Rightarrow> u8 \<times> u8" where
  "mask_byte blk mini maxi m1 = fold (mask_bit blk mini maxi) [0..<8] (0xff, m1)"

text \<open>
  \<open>min(x)\<close> and \<open>max(x)\<close> raise ValueError on an empty bucket. The loop
  over the 42 bytes writes \<open>_mask0[i]\<close> and \<open>_mask1[i]\<close>, which raises
  IndexError on an array with fewer entries; \<open>__init__\<close> gives both arrays 42
  entries and nothing changes that. After the loop:
  \<open>tmp = _mask1 & _mask0\<close>, \<open>_mask0 |= _mask1\<close>, \<open>_mask1 = tmp\<close>.
\<close>

definition raw_masks :: "vbi_state \<Rightarrow> real list list \<Rightarrow> (u8 \<times> u8) list" where
  "raw_masks s a =
     (let mins = map (\<lambda>x. Min (set x)) a; maxs = map (\<lambda>x. Max (set x)) a in
      map (\<lambda>i. mask_byte (black s) (take 8 (drop (i * 8) mins)) (take 8 (drop (i * 8) maxs))
                  (mask1 s ! i)) [0..<42])"

definition make_guess_mask :: "vbi_state \<Rightarrow> real \<Rightarrow> py_error + vbi_state" where
  "make_guess_mask s o' =
     (case make_buckets s o' of
        Inl e \<Rightarrow> Inl e
      | Inr a \<Rightarrow>
          if \<exists>x \<in> set a. x = [] then Inl ValueError
          else if length (mask0 s) < 42 \<or> length (mask1 s) < 42 then Inl IndexError
          else
            let ms = raw_masks s a;
                m0 = map fst ms; m1 = map snd ms;
                tmp = map (\<lambda>(x, y). x AND y) (zip m1 m0)
            in Inr (s\<lparr>mask0 := map (\<lambda>(x, y). x OR y) (zip m0 m1), mask1 := tmp\<rparr>))"

subsection \<open>deconvolve\<close>

text \<open>
  \<open>np.zeros(42, dtype=np.uint8)\<close> makes a new array each time: the two
  addresses are new and differ from each other.
\<close>

definition new_buffers :: "vbi_state \<Rightarrow> vbi_state" where
  "new_buffers s =
     (let r1 = Suc (max (bytes_ref s) (oldbytes_ref s)); r2 = Suc r1 in
      s\<lparr>arrays := (arrays s)(r1 := replicate 42 0, r2 := replicate 42 0),
        bytes_ref := r1, oldbytes_ref := r2\<rparr>)"

definition packet_of :: "vbi_state \<Rightarrow> u8 list" where
  "packet_of s = arrays s (bytes_ref s)"

text \<open>The loop over the finders: the first one that matches decides, then \<open>break\<close>.\<close>

fun run_finders :: "numlib \<Rightarrow> finder list \<Rightarrow> vbi_state \<Rightarrow> py_error + vbi_state \<times> u8 list" where
  "run_finders L [] s = Inr (s, packet_of s)"
| "run_finders L (F # Fs) s =
     (if find F (packet_of s) then
        (case make_possible_bytes s (finder_possible_bytes F) of
           Inl e \<Rightarrow> Inl e
         | Inr s1 \<Rightarrow>
             (case private_deconvolve L s1 of
                Inl e \<Rightarrow> Inl e
              | Inr s2 \<Rightarrow> Inr (s2, fixup F (packet_of s2))))
      else run_finders L Fs s)"

text \<open>
  \<open>deconvolve\<close>, first its statements before the call of \<open>_deconvolve\<close>: the
  masks, the alphabets, the target and the two new buffers.
\<close>

definition prepare :: "numlib \<Rightarrow> u8 list \<Rightarrow> vbi_state \<Rightarrow> py_error + vbi_state" where
  "prepare L hammbytes s =
     (case make_guess_mask s 0 of
        Inl e \<Rightarrow> Inl e
      | Inr s1 \<Rightarrow>
          (case make_possible_bytes s1 (class_possible_bytes hammbytes) of
             Inl e \<Rightarrow> Inl e
           | Inr s2 \<Rightarrow>
               Inr (new_buffers (s2\<lparr>target := Some (normalise L (gauss L (vbi s2) (gauss_sd s2)))\<rparr>))))"

definition deconvolve :: "numlib \<Rightarrow> u8 list \<Rightarrow> vbi_state \<Rightarrow> py_error + vbi_state \<times> u8 list" where
  "deconvolve L hammbytes s =
     (case prepare L hammbytes s of
        Inl e \<Rightarrow> Inl e
      | Inr s3 \<Rightarrow>
          (case private_deconvolve L s3 of
             Inl e \<Rightarrow> Inl e
           | Inr s4 \<Rightarrow> run_finders L (finders s4) s4))"

section \<open>Auxiliary notions for the properties\<close>

subsection \<open>A concrete decoder for the examples\<close>

definition example_hammbytes :: "u8 list" where
  "example_hammbytes = [0x15, 0x02, 0x49, 0x5e, 0x64, 0x73, 0x38, 0x2f,
                        0xd0, 0xc7, 0x8c, 0x9b, 0xa1, 0xb6, 0xfd, 0xea]"

definition example_line :: "real list" where
  "example_line = map (\<lambda>i. real (i mod 256)) [0..<2048]"

definition example_vbi :: vbi_state where
  "example_vbi = init example_hammbytes example_line []"

subsection \<open>find_offset_and_scale\<close>

text \<open>
  \<open>np.clip\<close>, \<open>ndarray.std\<close> (the population standard deviation) and the slice
  \<open>[64:256]\<close>. The products and differences of arrays are element by element.
\<close>

definition clip :: "real list \<Rightarrow> real \<Rightarrow> real \<Rightarrow> real list" where
  "clip xs lo hi = map (\<lambda>x. min (max x lo) hi) xs"

definition std :: "real list \<Rightarrow> real" where
  "std xs = sqrt (mean (map (\<lambda>x. (x - mean xs)\<^sup>2) xs))"

definition cri_window :: "real list \<Rightarrow> real list" where
  "cri_window xs = take (256 - 64) (drop 64 xs)"

text \<open>
  The local function \<open>_inner(offset)\<close>: it sets the offset, computes the scale
  and stores it, and returns the residual. The mask interpolator was built over
  \<open>_interp_x\<close> and the mask array with fill value 1.
\<close>

definition inner :: "numlib \<Rightarrow> real list \<Rightarrow> vbi_state \<Rightarrow> real \<Rightarrow> vbi_state \<times> real" where
  "inner L tg s off =
     (let s1 = set_offset off s;
          guess_scaled = gauss L (interp1d L (interp_x s1) (guess s1) 0 (cri_window (guess_x s1)))
                           (gauss_sd s1);
          mask_scaled = interp1d L (interp_x s1) (mask_buf s1) 1 (cri_window (guess_x s1));
          a = map (\<lambda>(x, y). x * y) (zip guess_scaled mask_scaled);
          b = clip (map (\<lambda>(x, y). x * y) (zip tg mask_scaled)) (black s1) 256;
          s2 = s1\<lparr>scale := std a / std b\<rparr>;
          b' = map (\<lambda>x. (x - black s2) * scale s2) b;
          a' = clip a 0 (256 * scale s2)
      in (s2, sum_list (map (\<lambda>(x, y). (x - y)\<^sup>2) (zip a' b'))))"

text \<open>
  \<open>scipy.optimize.fminbound\<close> is a parameter: it is given the residual as a
  function of the offset and the two bounds. Every call of \<open>_inner\<close> overwrites
  what the call before stored, and none reads it, so the state after the last
  call, \<open>_inner(offset)\<close>, is the result.
\<close>

definition find_offset_and_scale ::
  "numlib \<Rightarrow> ((real \<Rightarrow> real) \<Rightarrow> real \<Rightarrow> real \<Rightarrow> real) \<Rightarrow> vbi_state \<Rightarrow> vbi_state \<times> bool" where
  "find_offset_and_scale L fminbound s =
     (let tg = gauss L (cri_window (vbi s)) (gauss_sd s);
          off = fminbound (\<lambda>x. snd (inner L tg s x)) 96.0 110.0;
          (s', r) = inner L tg s off
      in (s', r < 5.0))"

definition levels :: "u8 \<Rightarrow> real list" where
  "levels b = map (bit_level b) [0..<8]"

definition framing_intact :: "vbi_state \<Rightarrow> bool" where
  "framing_intact s \<longleftrightarrow>
     byte_levels (guess s) (-1) = levels 0x00 \<and> byte_levels (guess s) 0 = levels 0x55 \<and>
     byte_levels (guess s) 1 = levels 0x55 \<and> byte_levels (guess s) 2 = levels 0x27"

definition framing_untouched :: "vbi_state \<Rightarrow> vbi_state \<Rightarrow> bool" where
  "framing_untouched s s' \<longleftrightarrow> take 32 (guess s') = take 32 (guess s)"

definition in_bucket :: "real list \<Rightarrow> real list \<Rightarrow> nat \<Rightarrow> nat \<Rightarrow> bool" where
  "in_bucket ix gx b i \<longleftrightarrow> ix ! b < gx ! i \<and> gx ! i \<le> ix ! (b + 1)"

definition aligned :: "vbi_state \<Rightarrow> bool" where
  "aligned s \<longleftrightarrow> interp_x s = mk_interp_x (bitwidth s) \<and> guess_x s = mk_guess_x (offset s)"

definition shifted_x :: "vbi_state \<Rightarrow> real \<Rightarrow> real list" where
  "shifted_x s o' = map (\<lambda>x. x + bitwidth s * 0.5 + o') (guess_x s)"

definition bucket :: "vbi_state \<Rightarrow> real \<Rightarrow> nat \<Rightarrow> real list" where
  "bucket s o' k =
     map ((!) (vbi s)) (filter (in_bucket (interp_x s) (shifted_x s o') (k + 32)) [0..<2048])"

text \<open>
  The bucket rule in the words of the specification: sample \<open>i\<close> belongs to the
  bit position \<open>b\<close> with \<open>interp_x[b] \<le> guess_x[i] < interp_x[b+1]\<close>.
\<close>

definition spec_bucket :: "vbi_state \<Rightarrow> nat \<Rightarrow> real list" where
  "spec_bucket s b =
     map ((!) (vbi s))
       (filter (\<lambda>i. interp_x s ! b \<le> guess_x s ! i \<and> guess_x s ! i < interp_x s ! (b + 1)) [0..<2048])"

definition search_rel :: "nat \<Rightarrow> vbi_state \<Rightarrow> vbi_state \<Rightarrow> bool" where
  "search_rel n s s' \<longleftrightarrow>
     (\<exists>c g. s' = s\<lparr>count := c, guess := g\<rparr> \<and> length g = length (guess s) \<and>
        (\<forall>k < length g. k < (n + 4) * 8 \<or> (n + 6) * 8 \<le> k \<longrightarrow> g ! k = guess s ! k))"

text \<open>
  The numerical library keeps the number of entries: the gaussian filter and
  the normalisation return an array as long as their argument, the
  interpolator one value for each query point.
\<close>

definition lib_ok :: "numlib \<Rightarrow> bool" where
  "lib_ok L \<longleftrightarrow>
     (\<forall>v sd. length (gauss L v sd) = length v) \<and>
     (\<forall>xs ys fill q. length (interp1d L xs ys fill q) = length q) \<and>
     (\<forall>v. length (normalise L v) = length v)"

definition sq_err :: "real list \<Rightarrow> real list \<Rightarrow> real" where
  "sq_err a t = sum_list (map (\<lambda>(x, y). (x - y)\<^sup>2) (zip a t))"

definition guess_with :: "vbi_state \<Rightarrow> nat \<Rightarrow> u8 \<Rightarrow> u8 \<Rightarrow> real list" where
  "guess_with s n b1 b2 = setbyte (setbyte (guess s) (int n + 3) b1) (int n + 4) b2"

definition pair_error :: "numlib \<Rightarrow> nat \<Rightarrow> vbi_state \<Rightarrow> real list \<Rightarrow> u8 \<Rightarrow> u8 \<Rightarrow> real" where
  "pair_error L n s t b1 b2 = sq_err (render L (s\<lparr>guess := guess_with s n b1 b2\<rparr>)) t"

definition candidates ::
  "numlib \<Rightarrow> nat \<Rightarrow> vbi_state \<Rightarrow> real list \<Rightarrow> u8 list \<Rightarrow> u8 list \<Rightarrow> (real \<times> u8 \<times> u8) list" where
  "candidates L n s t nb nnb =
     concat (map (\<lambda>b1. map (\<lambda>b2. (pair_error L n s t b1 b2, b1, b2)) nnb) nb)"

definition alphabets_ok :: "vbi_state \<Rightarrow> bool" where
  "alphabets_ok s \<longleftrightarrow>
     length (possible_bytes s) = 42 \<and> length (half_possible_bytes s) = 42 \<and>
     (\<forall>n < 42. possible_bytes s ! n \<noteq> [] \<and> half_possible_bytes s ! n \<noteq> [])"

definition look_ahead :: "vbi_state \<Rightarrow> nat \<Rightarrow> u8 list" where
  "look_ahead s n = (if n < 41 then half_possible_bytes s ! (n + 1) else [0])"

definition ready :: "vbi_state \<Rightarrow> bool" where
  "ready s \<longleftrightarrow>
     alphabets_ok s \<and> (\<exists>t. target s = Some t \<and> length t = length (guess_x s)) \<and>
     42 \<le> length (packet_of s)"

definition sweep_frame :: "vbi_state \<Rightarrow> vbi_state \<Rightarrow> bool" where
  "sweep_frame s s' \<longleftrightarrow> (\<exists>c g a. s' = s\<lparr>count := c, guess := g, arrays := a\<rparr>)"

definition kept :: "vbi_state \<Rightarrow> vbi_state \<Rightarrow> bool" where
  "kept s s' \<longleftrightarrow>
     bytes_ref s' = bytes_ref s \<and> possible_bytes s' = possible_bytes s \<and>
     half_possible_bytes s' = half_possible_bytes s \<and> mask0 s' = mask0 s \<and> mask1 s' = mask1 s \<and>
     target s' = target s \<and> guess_x s' = guess_x s \<and>
     take 32 (guess s') = take 32 (guess s) \<and>
     length (packet_of s') = length (packet_of s)"

definition in_alphabet :: "vbi_state \<Rightarrow> vbi_state \<Rightarrow> nat \<Rightarrow> bool" where
  "in_alphabet s s' n \<longleftrightarrow> packet_of s' ! n \<in> set (possible_bytes s ! n)"

text \<open>
  A numerical library for the examples: no smoothing (\<open>gauss\<close> returns its
  argument), linear interpolation between the grid points with the fill value
  outside the grid, and \<open>normalise\<close> as the specification has it (the minimum
  goes to 0, the maximum to 255). Then the sixteen Hamming 8/4 codewords of
  teletext for the table \<open>hammbytes\<close>, a line of 2048 samples, the decoder
  built on it, and that decoder as \<open>deconvolve\<close> has it when it calls
  \<open>_deconvolve\<close>.
\<close>

definition linear_at :: "real list \<Rightarrow> real list \<Rightarrow> real \<Rightarrow> real \<Rightarrow> real" where
  "linear_at xs ys fill x =
     (if xs = [] \<or> x < hd xs \<or> last xs < x then fill
      else
        let i = length (filter (\<lambda>g. g \<le> x) xs) - 1 in
        if i + 1 < length xs
        then ys ! i + (ys ! (i + 1) - ys ! i) * (x - xs ! i) / (xs ! (i + 1) - xs ! i)
        else ys ! i)"

definition example_lib :: numlib where
  "example_lib =
     \<lparr>gauss = (\<lambda>v sd. v),
      interp1d = (\<lambda>xs ys fill q. map (linear_at xs ys fill) q),
      normalise = (\<lambda>v. map (\<lambda>x. (x - Min (set v)) * 255 / (Max (set v) - Min (set v))) v)\<rparr>"

definition example_ready :: vbi_state where
  "example_ready =
     (case prepare example_lib example_hammbytes example_vbi of
        Inr s \<Rightarrow> s
      | Inl e \<Rightarrow> example_vbi)"






section \<open>Properties of the line decoder\<close>

lemma upt_0_8: "[0..<8] = [0, 1, 2, 3, 4, 5, 6, 7::nat]"
  by (simp add: upt_rec)

lemma length_setbyte: "length (setbyte buf n b) = length buf"
  by (simp add: setbyte_def upt_0_8)

lemma nth_setbyte:
  "k < length buf \<Longrightarrow>
   setbyte buf n b ! k =
     (if nat ((n + 1) * 8) \<le> k \<and> k < nat ((n + 1) * 8) + 8
      then bit_level b (k - nat ((n + 1) * 8)) else buf ! k)"
proof -
  assume k: "k < length buf"
  define base where "base = nat ((n + 1) * 8)"
  have cases: "k < base \<or> k = base \<or> k = base + 1 \<or> k = base + 2 \<or> k = base + 3 \<or> k = base + 4
    \<or> k = base + 5 \<or> k = base + 6 \<or> k = base + 7 \<or> base + 8 \<le> k" by arith
  show ?thesis
    unfolding setbyte_def upt_0_8 base_def [symmetric]
    using k cases by (auto simp: nth_list_update)
qed

lemma setbyte_overwrite: "setbyte (setbyte buf n x) n y = setbyte buf n y"
  by (rule nth_equalityI) (auto simp: length_setbyte nth_setbyte)

lemma setbyte_commute:
  "n \<noteq> m \<Longrightarrow> 0 \<le> n + 1 \<Longrightarrow> 0 \<le> m + 1 \<Longrightarrow> setbyte (setbyte buf n x) m y = setbyte (setbyte buf m y) n x"
  by (rule nth_equalityI) (auto simp: length_setbyte nth_setbyte)

lemma take_setbyte:
  "k \<le> nat ((n + 1) * 8) \<Longrightarrow> take k (setbyte buf n b) = take k buf"
  by (rule nth_equalityI) (auto simp: length_setbyte nth_setbyte)

lemma search_relI:
  assumes "s' = s\<lparr>count := c, guess := g\<rparr>" "length g = length (guess s)"
    "\<And>k. k < length g \<Longrightarrow> k < (n + 4) * 8 \<or> (n + 6) * 8 \<le> k \<Longrightarrow> g ! k = guess s ! k"
  shows "search_rel n s s'"
  unfolding search_rel_def
  using assms by (intro exI [of _ c] exI [of _ g]) simp

lemma search_rel_refl: "search_rel n s s"
  by (rule search_relI [where c = "count s" and g = "guess s"]) simp_all

lemma search_rel_trans:
  assumes "search_rel n s t" "search_rel n t u"
  shows "search_rel n s u"
proof -
  from assms(1) obtain c g where t: "t = s\<lparr>count := c, guess := g\<rparr>"
    and lg: "length g = length (guess s)"
    and g: "\<forall>k < length g. k < (n + 4) * 8 \<or> (n + 6) * 8 \<le> k \<longrightarrow> g ! k = guess s ! k"
    unfolding search_rel_def by blast
  from assms(2) obtain c' g' where u: "u = t\<lparr>count := c', guess := g'\<rparr>"
    and lg': "length g' = length (guess t)"
    and g': "\<forall>k < length g'. k < (n + 4) * 8 \<or> (n + 6) * 8 \<le> k \<longrightarrow> g' ! k = guess t ! k"
    unfolding search_rel_def by blast
  have "u = s\<lparr>count := c', guess := g'\<rparr>" using t u by simp
  moreover have "length g' = length (guess s)" using lg lg' t by simp
  moreover have "\<forall>k < length g'. k < (n + 4) * 8 \<or> (n + 6) * 8 \<le> k \<longrightarrow> g' ! k = guess s ! k"
    using g g' lg lg' t by simp
  ultimately show ?thesis by (intro search_relI [where c = c' and g = g']) auto
qed

lemma search_rel_set3:
  "search_rel n s (s\<lparr>guess := setbyte (guess s) (int n + 3) b\<rparr>)"
proof (rule search_relI [where c = "count s" and g = "setbyte (guess s) (int n + 3) b"])
  fix k assume "k < length (setbyte (guess s) (int n + 3) b)"
    and "k < (n + 4) * 8 \<or> (n + 6) * 8 \<le> k"
  moreover have "nat ((int n + 3 + 1) * 8) = (n + 4) * 8" by simp
  ultimately show "setbyte (guess s) (int n + 3) b ! k = guess s ! k"
    by (auto simp: nth_setbyte length_setbyte)
qed (simp_all add: length_setbyte)

lemma search_rel_set4:
  "search_rel n s (s\<lparr>count := c, guess := setbyte (guess s) (int n + 4) b\<rparr>)"
proof (rule search_relI [where c = c and g = "setbyte (guess s) (int n + 4) b"])
  fix k assume "k < length (setbyte (guess s) (int n + 4) b)"
    and "k < (n + 4) * 8 \<or> (n + 6) * 8 \<le> k"
  moreover have "nat ((int n + 4 + 1) * 8) = (n + 5) * 8" by simp
  ultimately show "setbyte (guess s) (int n + 4) b ! k = guess s ! k"
    by (auto simp: nth_setbyte length_setbyte)
qed (simp_all add: length_setbyte)

lemma search_rel_guess:
  assumes "search_rel n s s'"
  shows "setbyte (setbyte (guess s') (int n + 3) b1) (int n + 4) b2
       = setbyte (setbyte (guess s) (int n + 3) b1) (int n + 4) b2"
proof -
  from assms obtain c g where t: "s' = s\<lparr>count := c, guess := g\<rparr>"
    and lg: "length g = length (guess s)"
    and g: "\<forall>k < length g. k < (n + 4) * 8 \<or> (n + 6) * 8 \<le> k \<longrightarrow> g ! k = guess s ! k"
    unfolding search_rel_def by blast
  have b3: "nat ((int n + 3 + 1) * 8) = (n + 4) * 8" and b4: "nat ((int n + 4 + 1) * 8) = (n + 5) * 8"
    by simp_all
  show ?thesis
  proof (rule nth_equalityI)
    show "length (setbyte (setbyte (guess s') (int n + 3) b1) (int n + 4) b2)
        = length (setbyte (setbyte (guess s) (int n + 3) b1) (int n + 4) b2)"
      using t lg by (simp add: length_setbyte)
  next
    fix k assume "k < length (setbyte (setbyte (guess s') (int n + 3) b1) (int n + 4) b2)"
    then have k: "k < length g" using t by (simp add: length_setbyte)
    then show "setbyte (setbyte (guess s') (int n + 3) b1) (int n + 4) b2 ! k
        = setbyte (setbyte (guess s) (int n + 3) b1) (int n + 4) b2 ! k"
      using t lg g by (auto simp: nth_setbyte length_setbyte b3 b4)
  qed
qed

lemma search_rel_prefix:
  assumes "search_rel n s s'"
  shows "take 32 (guess s') = take 32 (guess s)"
proof -
  from assms obtain c g where t: "s' = s\<lparr>count := c, guess := g\<rparr>"
    and lg: "length g = length (guess s)"
    and g: "\<forall>k < length g. k < (n + 4) * 8 \<or> (n + 6) * 8 \<le> k \<longrightarrow> g ! k = guess s ! k"
    unfolding search_rel_def by blast
  have "take 32 g = take 32 (guess s)"
    by (rule nth_equalityI) (use lg g in auto)
  then show ?thesis by (simp add: t)
qed

lemma search_rel_fields:
  assumes "search_rel n s s'"
  shows "it s' = it s" "bytes_ref s' = bytes_ref s" "oldbytes_ref s' = oldbytes_ref s"
    "possible_bytes s' = possible_bytes s" "half_possible_bytes s' = half_possible_bytes s"
    "mask0 s' = mask0 s" "mask1 s' = mask1 s" "arrays s' = arrays s"
  using assms unfolding search_rel_def by auto

lemma search_rel_more_fields:
  assumes "search_rel n s s'"
  shows "target s' = target s" "guess_x s' = guess_x s" "interp_x s' = interp_x s"
    "gauss_sd s' = gauss_sd s" "vbi s' = vbi s" "finders s' = finders s"
  using assms unfolding search_rel_def by auto

lemma try_b2_frame:
  assumes "try_b2 L n b1 b2 (s, ans) = Inr (s', ans')"
  shows "search_rel n s s'"
proof -
  from assms have "s' = s\<lparr>count := count s + 1, guess := setbyte (guess s) (int n + 4) b2\<rparr>"
    by (auto simp: try_b2_def Let_def split: sum.splits)
  then show ?thesis by (simp add: search_rel_set4)
qed

lemma loop_b2_frame:
  "loop_b2 L n b1 nnb (s, ans) = Inr (s', ans') \<Longrightarrow> search_rel n s s'"
proof (induction nnb arbitrary: s ans)
  case Nil
  then show ?case by (simp add: search_rel_refl)
next
  case (Cons b2 nnb)
  from Cons.prems obtain s1 a1 where t: "try_b2 L n b1 b2 (s, ans) = Inr (s1, a1)"
    and r: "loop_b2 L n b1 nnb (s1, a1) = Inr (s', ans')"
    by (auto split: sum.splits)
  from try_b2_frame [OF t] Cons.IH [OF r] show ?case by (rule search_rel_trans)
qed

lemma loop_b1_frame:
  "loop_b1 L n nnb nb (s, ans) = Inr (s', ans') \<Longrightarrow> search_rel n s s'"
proof (induction nb arbitrary: s ans)
  case Nil
  then show ?case by (simp add: search_rel_refl)
next
  case (Cons b1 nb)
  from Cons.prems obtain s1 a1 where
    t: "loop_b2 L n b1 nnb (s\<lparr>guess := setbyte (guess s) (int n + 3) b1\<rparr>, ans) = Inr (s1, a1)"
    and r: "loop_b1 L n nnb nb (s1, a1) = Inr (s', ans')"
    by (auto split: sum.splits)
  have "search_rel n s (s\<lparr>guess := setbyte (guess s) (int n + 3) b1\<rparr>)" by (rule search_rel_set3)
  with loop_b2_frame [OF t] have "search_rel n s s1" by (blast intro: search_rel_trans)
  with Cons.IH [OF r] show ?case by (blast intro: search_rel_trans)
qed

lemma search_frame: "search L n nb nnb s = Inr (s', ans) \<Longrightarrow> search_rel n s s'"
  unfolding search_def by (rule loop_b1_frame)

lemma sum_squares_zip:
  "sum_list (map (\<lambda>x. x\<^sup>2) (map (\<lambda>(x, y). x - y) (zip a t))) = sq_err a (t :: real list)"
proof -
  have "map (\<lambda>x. x\<^sup>2) (map (\<lambda>(x, y). x - y) (zip a t)) = map (\<lambda>(x, y). (x - y)\<^sup>2) (zip a t)"
    by (induction a t rule: list_induct2') simp_all
  then show ?thesis by (simp only: sq_err_def)
qed

lemma length_render: "lib_ok L \<Longrightarrow> length (render L s) = length (guess_x s)"
  by (simp add: lib_ok_def render_def)

lemma diff_ok:
  assumes "lib_ok L" "target s = Some t" "length t = length (guess_x s)"
  shows "diff L s = Inr (sq_err (render L s) t)"
proof -
  have "np_sub (render L s) t = Inr (map (\<lambda>(x, y). x - y) (zip (render L s) t))"
    using assms(3) length_render [OF assms(1), of s] by (simp add: np_sub_def)
  then show ?thesis using assms(2) by (simp add: diff_def sum_squares_zip del: map_map)
qed

lemma render_cong:
  "interp_x s' = interp_x s \<Longrightarrow> guess s' = guess s \<Longrightarrow> guess_x s' = guess_x s \<Longrightarrow>
   gauss_sd s' = gauss_sd s \<Longrightarrow> render L s' = render L s"
  by (simp add: render_def)

lemma guess_with_absorb:
  assumes "length g = length (guess s)"
    "\<forall>k < length g. k < (n + 4) * 8 \<or> (n + 6) * 8 \<le> k \<longrightarrow> g ! k = guess s ! k"
  shows "setbyte (setbyte g (int n + 3) b1) (int n + 4) b2 = guess_with s n b1 b2"
proof -
  have "search_rel n s (s\<lparr>count := count s, guess := g\<rparr>)"
    using assms by (intro search_relI [where c = "count s" and g = g]) auto
  from search_rel_guess [OF this, of b1 b2] show ?thesis by (simp add: guess_with_def)
qed

lemma guess_with_outside:
  "length (guess_with s n b1 b2) = length (guess s)"
  "k < length (guess s) \<Longrightarrow> k < (n + 4) * 8 \<or> (n + 6) * 8 \<le> k \<Longrightarrow>
     guess_with s n b1 b2 ! k = guess s ! k"
proof -
  show "length (guess_with s n b1 b2) = length (guess s)"
    by (simp add: guess_with_def length_setbyte)
  have b3: "nat ((int n + 3 + 1) * 8) = (n + 4) * 8" and b4: "nat ((int n + 4 + 1) * 8) = (n + 5) * 8"
    by simp_all
  show "guess_with s n b1 b2 ! k = guess s ! k"
    if "k < length (guess s)" "k < (n + 4) * 8 \<or> (n + 6) * 8 \<le> k"
    using that by (auto simp: guess_with_def nth_setbyte length_setbyte b3 b4)
qed

lemma guess_with_again:
  "setbyte (setbyte (guess_with s n b1 b2) (int n + 3) c1) (int n + 4) c2 = guess_with s n c1 c2"
  by (rule guess_with_absorb) (simp_all add: guess_with_outside)

lemma guess_with_commit:
  "setbyte (guess_with s n b1 b2) (int n + 3) c1 = guess_with s n c1 b2"
proof -
  have "setbyte (guess_with s n b1 b2) (int n + 3) c1
      = setbyte (setbyte (setbyte (guess s) (int n + 3) b1) (int n + 3) c1) (int n + 4) b2"
    unfolding guess_with_def by (rule setbyte_commute) simp_all
  then show ?thesis by (simp add: guess_with_def setbyte_overwrite)
qed

lemma loop_b2_result:
  assumes lib: "lib_ok L" and tg: "target s = Some t" "length t = length (guess_x s)"
    and H: "\<forall>b2. setbyte g (int n + 4) b2 = guess_with s n b1 b2"
  shows "loop_b2 L n b1 nnb (s\<lparr>count := c, guess := g\<rparr>, ans) =
           Inr (s\<lparr>count := c + length nnb,
                  guess := (if nnb = [] then g else guess_with s n b1 (last nnb))\<rparr>,
                ans @ map (\<lambda>b2. (pair_error L n s t b1 b2, b1, b2)) nnb)"
  using H
proof (induction nnb arbitrary: c g ans)
  case Nil
  show ?case by simp
next
  case (Cons b2 nnb)
  define s' where "s' = s\<lparr>count := c + 1, guess := guess_with s n b1 b2\<rparr>"
  have "diff L s' = Inr (sq_err (render L s') t)"
    by (rule diff_ok [OF lib]) (simp_all add: s'_def tg)
  moreover have "render L s' = render L (s\<lparr>guess := guess_with s n b1 b2\<rparr>)"
    by (rule render_cong) (simp_all add: s'_def)
  ultimately have d: "diff L s' = Inr (pair_error L n s t b1 b2)" by (simp add: pair_error_def)
  have step: "try_b2 L n b1 b2 (s\<lparr>count := c, guess := g\<rparr>, ans) =
      Inr (s', ans @ [(pair_error L n s t b1 b2, b1, b2)])"
    using d Cons.prems by (simp add: try_b2_def Let_def s'_def)
  have H': "\<forall>c2. setbyte (guess_with s n b1 b2) (int n + 4) c2 = guess_with s n b1 c2"
    by (simp add: guess_with_def setbyte_overwrite)
  from Cons.IH [OF H', of "c + 1" "ans @ [(pair_error L n s t b1 b2, b1, b2)]"] step
  show ?case by (simp add: s'_def)
qed

lemma loop_b1_result:
  assumes lib: "lib_ok L" and tg: "target s = Some t" "length t = length (guess_x s)"
    and ne: "nnb \<noteq> []"
    and H: "\<forall>b1 b2. setbyte (setbyte g (int n + 3) b1) (int n + 4) b2 = guess_with s n b1 b2"
  shows "loop_b1 L n nnb nb (s\<lparr>count := c, guess := g\<rparr>, ans) =
           Inr (s\<lparr>count := c + length nb * length nnb,
                  guess := (if nb = [] then g else guess_with s n (last nb) (last nnb))\<rparr>,
                ans @ candidates L n s t nb nnb)"
  using H
proof (induction nb arbitrary: c g ans)
  case Nil
  show ?case by (simp add: candidates_def)
next
  case (Cons b1 nb)
  have H2: "\<forall>b2. setbyte (setbyte g (int n + 3) b1) (int n + 4) b2 = guess_with s n b1 b2"
    using Cons.prems by simp
  have inner: "loop_b2 L n b1 nnb (s\<lparr>count := c, guess := setbyte g (int n + 3) b1\<rparr>, ans) =
      Inr (s\<lparr>count := c + length nnb, guess := guess_with s n b1 (last nnb)\<rparr>,
           ans @ map (\<lambda>b2. (pair_error L n s t b1 b2, b1, b2)) nnb)"
    using loop_b2_result [OF lib tg H2, of nnb c ans] ne by simp
  have H3: "\<forall>c1 c2. setbyte (setbyte (guess_with s n b1 (last nnb)) (int n + 3) c1) (int n + 4) c2
      = guess_with s n c1 c2"
    by (simp add: guess_with_again)
  from Cons.IH [OF H3, of "c + length nnb" "ans @ map (\<lambda>b2. (pair_error L n s t b1 b2, b1, b2)) nnb"] inner
  show ?case by (simp add: candidates_def add.commute add.left_commute)
qed

lemma search_result:
  assumes "lib_ok L" "target s = Some t" "length t = length (guess_x s)" "nnb \<noteq> []"
  shows "search L n nb nnb s =
           Inr (s\<lparr>count := count s + length nb * length nnb,
                  guess := (if nb = [] then guess s else guess_with s n (last nb) (last nnb))\<rparr>,
                candidates L n s t nb nnb)"
proof -
  have "\<forall>b1 b2. setbyte (setbyte (guess s) (int n + 3) b1) (int n + 4) b2 = guess_with s n b1 b2"
    by (simp add: guess_with_def)
  from loop_b1_result [OF assms this, of nb "count s" "[]"] show ?thesis
    by (simp add: search_def)
qed

lemma set_candidates:
  "set (candidates L n s t nb nnb) =
     {(pair_error L n s t b1 b2, b1, b2) | b1 b2. b1 \<in> set nb \<and> b2 \<in> set nnb}"
  by (auto simp: candidates_def)

lemma candidates_nonempty: "nb \<noteq> [] \<Longrightarrow> nnb \<noteq> [] \<Longrightarrow> candidates L n s t nb nnb \<noteq> []"
  by (cases nb; cases nnb) (auto simp: candidates_def)

lemma hd_sort_Min:
  fixes xs :: "'a::linorder list"
  assumes "sort xs = y # ys"
  shows "y = Min (set xs)"
proof -
  have s: "sorted (y # ys)" using sorted_sort [where xs = xs] assms by simp
  have "set (sort xs) = set xs" by simp
  then have e: "set xs = set (y # ys)" unfolding assms by simp
  have "y \<in> set xs" using e by simp
  moreover have "\<forall>x \<in> set xs. y \<le> x" using s e by auto
  ultimately show ?thesis by (metis List.finite_set Min_eqI)
qed

lemma Min_candidates_least:
  assumes "nb \<noteq> []" "nnb \<noteq> []"
  shows "\<exists>b1 \<in> set nb. \<exists>b2 \<in> set nnb.
           Min (set (candidates L n s t nb nnb)) = (pair_error L n s t b1 b2, b1, b2) \<and>
           (\<forall>c1 \<in> set nb. \<forall>c2 \<in> set nnb.
              (pair_error L n s t b1 b2, b1, b2) \<le> (pair_error L n s t c1 c2, c1, c2))"
proof -
  have "Min (set (candidates L n s t nb nnb)) \<in> set (candidates L n s t nb nnb)"
    using candidates_nonempty [OF assms] by (intro Min_in) auto
  then obtain b1 b2 where b: "b1 \<in> set nb" "b2 \<in> set nnb"
    and m: "Min (set (candidates L n s t nb nnb)) = (pair_error L n s t b1 b2, b1, b2)"
    by (auto simp: set_candidates)
  have "(pair_error L n s t b1 b2, b1, b2) \<le> (pair_error L n s t c1 c2, c1, c2)"
    if "c1 \<in> set nb" "c2 \<in> set nnb" for c1 c2
  proof -
    have "(pair_error L n s t c1 c2, c1, c2) \<in> set (candidates L n s t nb nnb)"
      using that by (auto simp: set_candidates)
    then have "Min (set (candidates L n s t nb nnb)) \<le> (pair_error L n s t c1 c2, c1, c2)"
      by (intro Min_le) auto
    then show ?thesis by (simp only: m)
  qed
  with b m show ?thesis by blast
qed


lemma commit_result:
  "commit n v s = Inr s' \<longleftrightarrow>
     n < length (arrays s (bytes_ref s)) \<and>
     s' = s\<lparr>guess := setbyte (guess s) (int n + 3) v,
            arrays := (arrays s)(bytes_ref s := (arrays s (bytes_ref s))[n := v])\<rparr>"
  by (auto simp: commit_def)

text \<open>what one position does, when it does not fail\<close>
lemma position_single:
  assumes "n < length (possible_bytes s)" "length (possible_bytes s ! n) = 1"
  shows "deconvolve_position L n s = commit n (possible_bytes s ! n ! 0) s"
  using assms by (simp add: deconvolve_position_def)

lemma position_search_exact:
  assumes lib: "lib_ok L" and tg: "target s = Some t" "length t = length (guess_x s)"
    and n: "n < length (possible_bytes s)" and l: "length (possible_bytes s ! n) \<noteq> 1"
    and h: "n < 41 \<longrightarrow> n + 1 < length (half_possible_bytes s)"
    and ne: "possible_bytes s ! n \<noteq> []" "look_ahead s n \<noteq> []"
    and a: "n < length (arrays s (bytes_ref s))"
  defines "b \<equiv> fst (snd (Min (set (candidates L n s t (possible_bytes s ! n) (look_ahead s n)))))"
  shows "deconvolve_position L n s =
           Inr (s\<lparr>count := count s + length (possible_bytes s ! n) * length (look_ahead s n),
                  guess := guess_with s n b (last (look_ahead s n)),
                  arrays := (arrays s)(bytes_ref s := (arrays s (bytes_ref s))[n := b])\<rparr>)"
proof -
  define nb where "nb = possible_bytes s ! n"
  define nnb where "nnb = look_ahead s n"
  define s1 where "s1 = s\<lparr>count := count s + length nb * length nnb,
      guess := guess_with s n (last nb) (last nnb)\<rparr>"
  have sr: "search L n nb nnb s = Inr (s1, candidates L n s t nb nnb)"
    using search_result [OF lib tg, of nnb n nb] ne by (simp add: nb_def nnb_def s1_def)
  have "sort (candidates L n s t nb nnb) \<noteq> []"
    using candidates_nonempty [of nb nnb L n s t] ne
    by (metis length_sort length_0_conv nb_def nnb_def)
  then obtain d b1 b2 rest where so: "sort (candidates L n s t nb nnb) = (d, b1, b2) # rest"
    by (cases "sort (candidates L n s t nb nnb)") auto
  from hd_sort_Min [OF so] have b1: "b1 = b"
    unfolding b_def nb_def nnb_def by (metis fst_conv snd_conv)
  have "deconvolve_position L n s = commit n b1 s1"
    using n l h sr so
    by (auto simp: deconvolve_position_def Let_def nb_def nnb_def look_ahead_def)
  also have "\<dots> = Inr (s1\<lparr>guess := setbyte (guess s1) (int n + 3) b1,
      arrays := (arrays s1)(bytes_ref s1 := (arrays s1 (bytes_ref s1))[n := b1])\<rparr>)"
    using a by (simp add: commit_def s1_def)
  also have "\<dots> = Inr (s\<lparr>count := count s + length nb * length nnb,
      guess := guess_with s n b (last nnb),
      arrays := (arrays s)(bytes_ref s := (arrays s (bytes_ref s))[n := b])\<rparr>)"
    by (simp add: s1_def guess_with_commit b1)
  finally show ?thesis by (simp add: nb_def nnb_def)
qed

lemma kept_refl: "kept s s"
  by (simp add: kept_def)

lemma kept_trans: "kept s t \<Longrightarrow> kept t u \<Longrightarrow> kept s u"
  by (simp add: kept_def)

lemma kept_ready: "kept s t \<Longrightarrow> ready s \<Longrightarrow> ready t"
  by (simp add: kept_def ready_def alphabets_ok_def)

lemma sweep_frame_refl: "sweep_frame s s"
  unfolding sweep_frame_def
  by (rule exI [of _ "count s"], rule exI [of _ "guess s"], rule exI [of _ "arrays s"]) simp

lemma sweep_frame_trans:
  assumes "sweep_frame s t" "sweep_frame t u"
  shows "sweep_frame s u"
proof -
  from assms obtain c g a c' g' a' where
    "t = s\<lparr>count := c, guess := g, arrays := a\<rparr>" "u = t\<lparr>count := c', guess := g', arrays := a'\<rparr>"
    unfolding sweep_frame_def by blast
  then have "u = s\<lparr>count := c', guess := g', arrays := a'\<rparr>" by simp
  then show ?thesis unfolding sweep_frame_def by blast
qed

lemma sweep_frame_fields:
  assumes "sweep_frame s s'"
  shows "it s' = it s" "bytes_ref s' = bytes_ref s" "oldbytes_ref s' = oldbytes_ref s"
  using assms unfolding sweep_frame_def by auto

lemma position_shape:
  assumes "deconvolve_position L n s = Inr s'"
  shows "\<exists>b s1. search_rel n s s1 \<and> commit n b s1 = Inr s'"
proof (cases "length (possible_bytes s ! n) = 1")
  case True
  with assms have "commit n (possible_bytes s ! n ! 0) s = Inr s'"
    by (auto simp: deconvolve_position_def Let_def split: if_splits)
  then show ?thesis using search_rel_refl by blast
next
  case False
  define nnb where "nnb = (if n < 41 then half_possible_bytes s ! (n + 1) else [0])"
  from assms False obtain s1 ans b1 where
    sr: "search L n (possible_bytes s ! n) nnb s = Inr (s1, ans)" and c: "commit n b1 s1 = Inr s'"
    by (auto simp: deconvolve_position_def Let_def nnb_def split: if_splits sum.splits list.splits)
  from search_frame [OF sr] c show ?thesis by blast
qed

lemma commit_after_search:
  assumes r: "search_rel n s s1" and c: "commit n b s1 = Inr s'"
  shows "kept s s'" "sweep_frame s s'" "packet_of s' = (packet_of s)[n := b]"
proof -
  note f = search_rel_fields [OF r] search_rel_more_fields [OF r]
  from r obtain c1 g1 where s1: "s1 = s\<lparr>count := c1, guess := g1\<rparr>"
    unfolding search_rel_def by blast
  from c have s': "s' = s1\<lparr>guess := setbyte (guess s1) (int n + 3) b,
      arrays := (arrays s1)(bytes_ref s1 := (arrays s1 (bytes_ref s1))[n := b])\<rparr>"
    by (simp add: commit_result)
  have "packet_of s' = (packet_of s1)[n := b]" by (simp add: s' packet_of_def)
  moreover have "packet_of s1 = packet_of s" using f by (simp add: packet_of_def)
  ultimately show pk: "packet_of s' = (packet_of s)[n := b]" by simp
  have "take 32 (guess s') = take 32 (guess s1)" by (simp add: s' take_setbyte)
  with search_rel_prefix [OF r] have "take 32 (guess s') = take 32 (guess s)" by simp
  then show "kept s s'"
    unfolding kept_def using pk by (simp add: s' s1)
  have "s' = s\<lparr>count := c1, guess := setbyte g1 (int n + 3) b,
      arrays := (arrays s)(bytes_ref s := (arrays s (bytes_ref s))[n := b])\<rparr>"
    by (simp add: s' s1)
  then show "sweep_frame s s'" unfolding sweep_frame_def by blast
qed

lemma kept_position: "deconvolve_position L n s = Inr s' \<Longrightarrow> kept s s'"
  using position_shape commit_after_search(1) by blast

lemma sweep_frame_position: "deconvolve_position L n s = Inr s' \<Longrightarrow> sweep_frame s s'"
  using position_shape commit_after_search(2) by blast

lemma kept_positions: "deconvolve_positions L ns s = Inr s' \<Longrightarrow> kept s s'"
proof (induction ns arbitrary: s)
  case Nil
  then show ?case by (simp add: kept_refl)
next
  case (Cons n ns)
  from Cons.prems obtain s1 where p: "deconvolve_position L n s = Inr s1"
    and r: "deconvolve_positions L ns s1 = Inr s'"
    by (auto split: sum.splits)
  from kept_position [OF p] Cons.IH [OF r] show ?case by (rule kept_trans)
qed

lemma sweep_frame_positions: "deconvolve_positions L ns s = Inr s' \<Longrightarrow> sweep_frame s s'"
proof (induction ns arbitrary: s)
  case Nil
  then show ?case by (simp add: sweep_frame_refl)
next
  case (Cons n ns)
  from Cons.prems obtain s1 where p: "deconvolve_position L n s = Inr s1"
    and r: "deconvolve_positions L ns s1 = Inr s'"
    by (auto split: sum.splits)
  from sweep_frame_position [OF p] Cons.IH [OF r] show ?case by (rule sweep_frame_trans)
qed

lemma kept_sweeps: "sweeps L k s = Inr s' \<Longrightarrow> kept s s'"
proof (induction k arbitrary: s)
  case 0
  then show ?case by (simp add: kept_refl)
next
  case (Suc k)
  from Suc.prems obtain s1 where p: "deconvolve_positions L [0..<42] (s\<lparr>it := it s + 1\<rparr>) = Inr s1"
    by (auto split: sum.splits)
  have "kept s (s\<lparr>it := it s + 1\<rparr>)" by (simp add: kept_def packet_of_def)
  with kept_positions [OF p] have k1: "kept s s1" by (blast intro: kept_trans)
  show ?case
  proof (cases "arrays s1 (bytes_ref s1) = arrays s1 (oldbytes_ref s1)")
    case True
    with Suc.prems p have "s' = s1" by simp
    with k1 show ?thesis by simp
  next
    case False
    with Suc.prems p have r: "sweeps L k (s1\<lparr>oldbytes_ref := bytes_ref s1\<rparr>) = Inr s'" by simp
    have "kept s1 (s1\<lparr>oldbytes_ref := bytes_ref s1\<rparr>)" by (simp add: kept_def packet_of_def)
    with k1 Suc.IH [OF r] show ?thesis by (blast intro: kept_trans)
  qed
qed

text \<open>a sweep loop entered with both attributes bound to one array stops after one sweep\<close>
lemma sweeps_aliased:
  assumes "oldbytes_ref s = bytes_ref s" "sweeps L (Suc k) s = Inr s'"
  shows "it s' = it s + 1 \<and> oldbytes_ref s' = bytes_ref s' \<and> bytes_ref s' = bytes_ref s"
proof -
  from assms(2) obtain s1 where p: "deconvolve_positions L [0..<42] (s\<lparr>it := it s + 1\<rparr>) = Inr s1"
    by (auto split: sum.splits)
  note f = sweep_frame_fields [OF sweep_frame_positions [OF p]]
  from f assms(1) have al: "oldbytes_ref s1 = bytes_ref s1" by simp
  with assms(2) p have "s' = s1" by simp
  with f al show ?thesis by simp
qed

lemma sweeps_count:
  assumes "sweeps L (Suc k) s = Inr s'"
  shows "it s' = it s + 1 \<or> (it s' = it s + 2 \<and> oldbytes_ref s' = bytes_ref s')"
proof -
  from assms obtain s1 where p: "deconvolve_positions L [0..<42] (s\<lparr>it := it s + 1\<rparr>) = Inr s1"
    by (auto split: sum.splits)
  note f = sweep_frame_fields [OF sweep_frame_positions [OF p]]
  show ?thesis
  proof (cases "arrays s1 (bytes_ref s1) = arrays s1 (oldbytes_ref s1)")
    case True
    with assms p have "s' = s1" by simp
    with f show ?thesis by simp
  next
    case False
    with assms p have r: "sweeps L k (s1\<lparr>oldbytes_ref := bytes_ref s1\<rparr>) = Inr s'" by simp
    show ?thesis
    proof (cases k)
      case 0
      with r f show ?thesis by auto
    next
      case (Suc k2)
      from sweeps_aliased [OF _ r [unfolded Suc]] f show ?thesis by simp
    qed
  qed
qed

lemma look_ahead_ok: "alphabets_ok s \<Longrightarrow> n < 42 \<Longrightarrow> look_ahead s n \<noteq> []"
  by (auto simp: alphabets_ok_def look_ahead_def)

lemma Min_candidates_in:
  assumes "nb \<noteq> []" "nnb \<noteq> []"
  shows "fst (snd (Min (set (candidates L n s t nb nnb)))) \<in> set nb"
  using Min_candidates_least [OF assms, of L n s t] by auto

lemma position_ok:
  assumes lib: "lib_ok L" and ok: "ready s" and n: "n < 42"
  shows "\<exists>s' b. deconvolve_position L n s = Inr s' \<and> kept s s' \<and> b \<in> set (possible_bytes s ! n) \<and>
           packet_of s' = (packet_of s)[n := b]"
proof -
  from ok obtain t where tg: "target s = Some t" "length t = length (guess_x s)"
    and al: "alphabets_ok s" and pk: "42 \<le> length (packet_of s)"
    by (auto simp: ready_def)
  from al n have a: "n < length (possible_bytes s)" "possible_bytes s ! n \<noteq> []"
    and h: "n < 41 \<longrightarrow> n + 1 < length (half_possible_bytes s)"
    by (auto simp: alphabets_ok_def)
  from pk n have na: "n < length (arrays s (bytes_ref s))" by (simp add: packet_of_def)
  have "\<exists>s' b. deconvolve_position L n s = Inr s' \<and> b \<in> set (possible_bytes s ! n) \<and>
      packet_of s' = (packet_of s)[n := b]"
  proof (cases "length (possible_bytes s ! n) = 1")
    case True
    have "possible_bytes s ! n ! 0 \<in> set (possible_bytes s ! n)"
      using True by (cases "possible_bytes s ! n") auto
    moreover have "deconvolve_position L n s =
        Inr (s\<lparr>guess := setbyte (guess s) (int n + 3) (possible_bytes s ! n ! 0),
               arrays := (arrays s)(bytes_ref s := (arrays s (bytes_ref s))[n := possible_bytes s ! n ! 0])\<rparr>)"
      using position_single [OF a(1) True, of L] na by (simp add: commit_def)
    ultimately show ?thesis by (auto simp: packet_of_def)
  next
    case False
    from position_search_exact [OF lib tg a(1) False h a(2) look_ahead_ok [OF al n] na]
      Min_candidates_in [OF a(2) look_ahead_ok [OF al n], of L n s t]
    show ?thesis by (auto simp: packet_of_def)
  qed
  then obtain s' b where d: "deconvolve_position L n s = Inr s'"
    and b: "b \<in> set (possible_bytes s ! n)" "packet_of s' = (packet_of s)[n := b]" by blast
  with kept_position [OF d] show ?thesis by blast
qed

lemma positions_ok:
  assumes "lib_ok L" "ready s" "\<forall>n \<in> set ns. n < 42"
  shows "\<exists>s'. deconvolve_positions L ns s = Inr s' \<and> kept s s' \<and>
           (\<forall>m < length (packet_of s).
              m \<in> set ns \<or> in_alphabet s s m \<longrightarrow> in_alphabet s s' m)"
  using assms(2,3)
proof (induction ns arbitrary: s)
  case Nil
  then show ?case by (simp add: kept_refl)
next
  case (Cons n ns)
  from Cons.prems have n: "n < 42" and ns: "\<forall>n \<in> set ns. n < 42" by simp_all
  from position_ok [OF assms(1) Cons.prems(1) n] obtain s1 b where
    d: "deconvolve_position L n s = Inr s1" and k1: "kept s s1"
    and b: "b \<in> set (possible_bytes s ! n)"
    and a1: "packet_of s1 = (packet_of s)[n := b]" by blast
  from Cons.IH [OF kept_ready [OF k1 Cons.prems(1)] ns] obtain s' where
    r: "deconvolve_positions L ns s1 = Inr s'" and k: "kept s1 s'"
    and v: "\<forall>m < length (packet_of s1).
              m \<in> set ns \<or> in_alphabet s1 s1 m \<longrightarrow> in_alphabet s1 s' m" by blast
  have pb: "possible_bytes s1 = possible_bytes s" using k1 by (simp add: kept_def)
  have "in_alphabet s s' m" if m: "m < length (packet_of s)"
    and c: "m \<in> set (n # ns) \<or> in_alphabet s s m" for m
  proof -
    have "m \<in> set ns \<or> in_alphabet s1 s1 m"
      using c b m by (cases "m = n") (auto simp: in_alphabet_def a1 pb)
    moreover have "m < length (packet_of s1)" using m by (simp add: a1)
    ultimately have "in_alphabet s1 s' m" using v by blast
    then show ?thesis by (simp add: in_alphabet_def pb)
  qed
  moreover have "deconvolve_positions L (n # ns) s = Inr s'" using d r by simp
  moreover from k1 k have "kept s s'" by (rule kept_trans)
  ultimately show ?case by blast
qed

lemma sweeps_ok:
  assumes "lib_ok L" "ready s"
  shows "\<exists>s'. sweeps L k s = Inr s' \<and> kept s s' \<and>
           (\<forall>m < length (packet_of s). m < 42 \<longrightarrow>
              0 < k \<or> in_alphabet s s m \<longrightarrow> in_alphabet s s' m)"
  using assms(2)
proof (induction k arbitrary: s)
  case 0
  then show ?case by (simp add: kept_refl)
next
  case (Suc k)
  define s0 where "s0 = s\<lparr>it := it s + 1\<rparr>"
  have k0: "kept s s0" by (simp add: s0_def kept_def packet_of_def)
  have ok0: "ready s0" using kept_ready [OF k0 Suc.prems] .
  have "\<forall>n \<in> set [0..<42]. n < 42" by simp
  from positions_ok [OF assms(1) ok0 this] obtain s1 where
    p: "deconvolve_positions L [0..<42] s0 = Inr s1" and k1: "kept s0 s1"
    and v: "\<forall>m < length (packet_of s0).
              m \<in> set [0..<42] \<or> in_alphabet s0 s0 m \<longrightarrow> in_alphabet s0 s1 m" by blast
  have ks1: "kept s s1" using k0 k1 by (rule kept_trans)
  have v1: "in_alphabet s s1 m" if "m < length (packet_of s)" "m < 42" for m
  proof -
    have "m < length (packet_of s0)" "m \<in> set [0..<42]" using that by (simp_all add: s0_def packet_of_def)
    with v have "in_alphabet s0 s1 m" by blast
    then show ?thesis by (simp add: in_alphabet_def s0_def)
  qed
  show ?case
  proof (cases "arrays s1 (bytes_ref s1) = arrays s1 (oldbytes_ref s1)")
    case True
    with p have "sweeps L (Suc k) s = Inr s1" by (simp add: s0_def)
    with ks1 v1 show ?thesis by blast
  next
    case False
    define s2 where "s2 = s1\<lparr>oldbytes_ref := bytes_ref s1\<rparr>"
    have k2: "kept s1 s2" by (simp add: s2_def kept_def packet_of_def)
    have ks2: "kept s s2" using ks1 k2 by (rule kept_trans)
    from Suc.IH [OF kept_ready [OF ks2 Suc.prems]] obtain s' where
      r: "sweeps L k s2 = Inr s'" and k': "kept s2 s'"
      and v': "\<forall>m < length (packet_of s2). m < 42 \<longrightarrow>
              0 < k \<or> in_alphabet s2 s2 m \<longrightarrow> in_alphabet s2 s' m" by blast
    have pb: "possible_bytes s2 = possible_bytes s"
      and len: "length (packet_of s2) = length (packet_of s)"
      using ks2 by (simp_all add: kept_def)
    have pk2: "packet_of s2 = packet_of s1" by (simp add: s2_def packet_of_def)
    have "in_alphabet s s' m" if m: "m < length (packet_of s)" "m < 42" for m
    proof -
      from v1 [OF m] have "in_alphabet s2 s2 m" by (simp add: in_alphabet_def pb pk2)
      moreover have "m < length (packet_of s2)" using m len by simp
      ultimately have "in_alphabet s2 s' m" using v' m by blast
      then show ?thesis by (simp add: in_alphabet_def pb)
    qed
    moreover have "sweeps L (Suc k) s = Inr s'" using p False r by (simp add: s0_def s2_def)
    moreover from ks2 k' have "kept s s'" by (rule kept_trans)
    ultimately show ?thesis by blast
  qed
qed

lemma make_possible_bytes_result:
  assumes "make_possible_bytes s seed = Inr s1"
  shows "s1 = s\<lparr>possible_bytes := possible_bytes s1, half_possible_bytes := half_possible_bytes s1\<rparr>"
    and "length (possible_bytes s1) = length seed"
    and "length (half_possible_bytes s1) = length seed"
    and "n < length seed \<Longrightarrow> possible_bytes s1 ! n =
           (if masked s (seed ! n) n \<noteq> [] then masked s (seed ! n) n else seed ! n)"
    and "n < length seed \<Longrightarrow> half_possible_bytes s1 ! n =
           remdups (map (\<lambda>x. x AND 0x1f) (possible_bytes s1 ! n))"
  using assms
  by (auto simp: make_possible_bytes_def Let_def nth_enumerate_eq split: if_splits)

lemma make_possible_bytes_ok:
  assumes m: "make_possible_bytes s seed = Inr s1" and l: "length seed = 42"
    and ne: "\<forall>b \<in> set seed. b \<noteq> []"
  shows "alphabets_ok s1"
proof -
  note r = make_possible_bytes_result [OF m]
  have "possible_bytes s1 ! n \<noteq> []" if "n < 42" for n
    using r(4) [of n] that l ne by (auto simp: nth_mem)
  moreover have "half_possible_bytes s1 ! n \<noteq> []" if "n < 42" for n
    using r(5) [of n] calculation [OF that] that l by simp
  ultimately show ?thesis using r(2,3) l by (simp add: alphabets_ok_def)
qed

lemma paritybytes_nonempty: "paritybytes \<noteq> []"
proof -
  have "odd_parity 1" by (simp add: odd_parity_def upt_0_8)
  moreover have "(1::u8) \<in> of_nat ` {0..<256}"
    by (rule image_eqI [where x = 1]) simp_all
  then have "(1::u8) \<in> set (map of_nat [0..<256])" by simp
  ultimately have "(1::u8) \<in> set paritybytes" by (simp add: paritybytes_def)
  then show ?thesis by auto
qed

lemma zero_not_parity: "0 \<notin> set paritybytes"
  by (simp add: paritybytes_def odd_parity_def)

lemma class_possible_bytes_shape:
  "length (class_possible_bytes h) = 42"
  "n < 2 \<Longrightarrow> class_possible_bytes h ! n = h"
  "2 \<le> n \<Longrightarrow> n < 42 \<Longrightarrow> class_possible_bytes h ! n = paritybytes"
  by (simp_all add: class_possible_bytes_def nth_append)

lemma class_possible_bytes_nonempty:
  "h \<noteq> [] \<Longrightarrow> \<forall>b \<in> set (class_possible_bytes h). b \<noteq> []"
  by (auto simp: class_possible_bytes_def paritybytes_nonempty)

lemma init_fields:
  "mask0 (init h v fs) = replicate 42 0" "mask1 (init h v fs) = replicate 42 0"
  "vbi (init h v fs) = v" "bitwidth (init h v fs) = 5.112" "offset (init h v fs) = 0"
  "interp_x (init h v fs) = mk_interp_x 5.112" "guess_x (init h v fs) = mk_guess_x 0"
  "it (init h v fs) = 0" "finders (init h v fs) = fs"
  "black (init h v fs) = mean (take 80 v)"
  by (simp_all only: init_def set_offset_def set_bitwidth_def vbi_state.simps)

lemma make_possible_bytes_masks:
  "make_possible_bytes s seed = Inr s1 \<Longrightarrow> mask0 s1 = mask0 s \<and> mask1 s1 = mask1 s"
  by (auto simp: make_possible_bytes_def Let_def split: if_splits)

lemma advance_spec:
  assumes "b \<le> 368"
  shows "b \<le> advance ix g b \<and> advance ix g b \<le> 368 \<and>
         (advance ix g b < 368 \<longrightarrow> g \<le> ix ! (advance ix g b + 1)) \<and>
         (\<forall>c. b \<le> c \<and> c < advance ix g b \<longrightarrow> ix ! (c + 1) < g)"
  using assms
proof (induction ix g b rule: advance.induct)
  case (1 ix g b)
  show ?case
  proof (cases "b < 368 \<and> g > ix ! (b + 1)")
    case True
    then have e: "advance ix g b = advance ix g (b + 1)" by (subst advance.simps) auto
    from True have "b + 1 \<le> 368" by simp
    from "1.IH" [OF True this] have ih: "b + 1 \<le> advance ix g (b + 1)" "advance ix g (b + 1) \<le> 368"
      "advance ix g (b + 1) < 368 \<longrightarrow> g \<le> ix ! (advance ix g (b + 1) + 1)"
      "\<forall>c. b + 1 \<le> c \<and> c < advance ix g (b + 1) \<longrightarrow> ix ! (c + 1) < g" by blast+
    have "ix ! (c + 1) < g" if "b \<le> c" "c < advance ix g (b + 1)" for c
    proof (cases "c = b")
      case True
      with \<open>b < 368 \<and> g > ix ! (b + 1)\<close> show ?thesis by simp
    next
      case False
      with that ih(4) show ?thesis by simp
    qed
    with ih show ?thesis unfolding e by auto
  next
    case False
    then have e: "advance ix g b = b" by (subst advance.simps) auto
    with False "1.prems" show ?thesis by auto
  qed
qed

lemma length_fill_buckets:
  "fill_buckets ix v gx is (b, a) = Inr (b', a') \<Longrightarrow> length a' = length a"
proof (induction "is" arbitrary: b a)
  case Nil
  then show ?case by simp
next
  case (Cons i "is")
  define c where "c = advance ix (gx ! i) b"
  show ?case
  proof (cases "ix ! c < gx ! i \<and> c < 368")
    case True
    with Cons.prems have "i < length v"
      by (auto simp: c_def Let_def split: if_splits)
    with Cons.prems True have "fill_buckets ix v gx is (c, a[c - 4 * 8 := a ! (c - 4 * 8) @ [v ! i]]) = Inr (b', a')"
      by (simp add: c_def Let_def)
    from Cons.IH [OF this] show ?thesis by simp
  next
    case False
    with Cons.prems have "fill_buckets ix v gx is (c, a) = Inr (b', a')"
      by (auto simp: c_def Let_def)
    from Cons.IH [OF this] show ?thesis .
  qed
qed

lemma grid_mono:
  assumes "\<forall>b. 32 \<le> b \<and> b < 368 \<longrightarrow> ix ! b < ix ! (b + 1)" "32 \<le> a" "a \<le> c" "c \<le> 368"
  shows "(ix ! a :: real) \<le> ix ! c"
  using assms(3,4)
proof (induction c)
  case 0
  then show ?case by simp
next
  case (Suc c)
  show ?case
  proof (cases "a = Suc c")
    case True
    then show ?thesis by simp
  next
    case False
    with Suc.prems have "a \<le> c" "c \<le> 368" "c < 368" by simp_all
    with Suc.IH assms(1,2) have "ix ! a \<le> ix ! c" "ix ! c < ix ! (c + 1)" by auto
    then show ?thesis by simp
  qed
qed

lemma fill_step_bucket:
  assumes mono: "\<forall>b. 32 \<le> b \<and> b < 368 \<longrightarrow> ix ! b < ix ! (b + 1)"
    and b0: "32 \<le> b0" "b0 \<le> 368" and inv: "b0 = 32 \<or> ix ! b0 < gx ! i"
    and k: "k < 336"
  defines "c \<equiv> advance ix (gx ! i) b0"
  shows "in_bucket ix gx (k + 32) i \<longleftrightarrow> ix ! c < gx ! i \<and> c < 368 \<and> k = c - 32"
proof -
  from advance_spec [OF b0(2), of ix "gx ! i"]
  have c: "b0 \<le> c" "c \<le> 368" "c < 368 \<longrightarrow> gx ! i \<le> ix ! (c + 1)"
    "\<forall>d. b0 \<le> d \<and> d < c \<longrightarrow> ix ! (d + 1) < gx ! i"
    unfolding c_def by blast+
  show ?thesis
  proof
    assume r: "ix ! c < gx ! i \<and> c < 368 \<and> k = c - 32"
    with c(1) b0(1) have "k + 32 = c" by simp
    with r c(3) show "in_bucket ix gx (k + 32) i" by (simp add: in_bucket_def)
  next
    assume "in_bucket ix gx (k + 32) i"
    then have lo: "ix ! (k + 32) < gx ! i" and hi: "gx ! i \<le> ix ! (k + 32 + 1)"
      by (simp_all add: in_bucket_def)
    define d where "d = k + 32"
    have d: "32 \<le> d" "d < 368" using k by (simp_all add: d_def)
    have "\<not> d < b0"
    proof
      assume l: "d < b0"
      then have "b0 \<noteq> 32" using d by simp
      with inv have "ix ! b0 < gx ! i" by simp
      moreover have "ix ! (d + 1) \<le> ix ! b0"
        using grid_mono [OF mono, of "d + 1" b0] l d b0 by simp
      ultimately show False using hi by (simp add: d_def)
    qed
    moreover have "\<not> (b0 \<le> d \<and> d < c)"
      using c(4) hi by (auto simp: d_def)
    moreover have "\<not> c < d"
    proof
      assume l: "c < d"
      then have "c < 368" using d by simp
      with c(3) have "gx ! i \<le> ix ! (c + 1)" by simp
      moreover have "ix ! (c + 1) \<le> ix ! d"
        using grid_mono [OF mono, of "c + 1" d] l d c(1) b0(1) by simp
      ultimately show False using lo by (simp add: d_def)
    qed
    ultimately have "d = c" by arith
    with lo d show "ix ! c < gx ! i \<and> c < 368 \<and> k = c - 32" by (simp add: d_def)
  qed
qed

lemma fill_buckets_char:
  assumes mono: "\<forall>b. 32 \<le> b \<and> b < 368 \<longrightarrow> ix ! b < ix ! (b + 1)"
    and "sorted (map ((!) gx) is)"
    and "32 \<le> b0" "b0 \<le> 368" "\<forall>i \<in> set is. b0 = 32 \<or> ix ! b0 < gx ! i"
    and "\<forall>i \<in> set is. i < length v" "length a0 = 336"
  shows "\<exists>b'. fill_buckets ix v gx is (b0, a0) =
           Inr (b', map (\<lambda>k. a0 ! k @ map ((!) v) (filter (in_bucket ix gx (k + 32)) is)) [0..<336])"
  using assms(2-)
proof (induction "is" arbitrary: b0 a0)
  case Nil
  have "map (\<lambda>k. a0 ! k) [0..<336] = a0"
    using Nil.prems(6) by (metis map_nth)
  then show ?case by simp
next
  case (Cons i "is")
  define c where "c = advance ix (gx ! i) b0"
  define cond where "cond \<longleftrightarrow> ix ! c < gx ! i \<and> c < 368"
  define a1 where "a1 = (if cond then a0[c - 4 * 8 := a0 ! (c - 4 * 8) @ [v ! i]] else a0)"
  from advance_spec [OF Cons.prems(3), of ix "gx ! i"]
  have c: "b0 \<le> c" "c \<le> 368" "\<forall>d. b0 \<le> d \<and> d < c \<longrightarrow> ix ! (d + 1) < gx ! i"
    unfolding c_def by blast+
  have iv: "i < length v" using Cons.prems(5) by simp
  have step: "fill_buckets ix v gx (i # is) (b0, a0) = fill_buckets ix v gx is (c, a1)"
    using iv by (simp add: c_def cond_def a1_def Let_def)
  have inv_i: "b0 = 32 \<or> ix ! b0 < gx ! i" using Cons.prems(4) by auto
  have bucket: "in_bucket ix gx (k + 32) i \<longleftrightarrow> cond \<and> k = c - 32" if "k < 336" for k
    using fill_step_bucket [OF mono Cons.prems(2,3) inv_i that] by (simp add: c_def cond_def)
  have sorted_rest: "sorted (map ((!) gx) is)" and ge: "\<forall>j \<in> set is. gx ! i \<le> gx ! j"
    using Cons.prems(1) by auto
  have inv': "\<forall>j \<in> set is. c = 32 \<or> ix ! c < gx ! j"
  proof
    fix j assume j: "j \<in> set is"
    show "c = 32 \<or> ix ! c < gx ! j"
    proof (cases "c = b0")
      case True
      with Cons.prems(4) j show ?thesis by auto
    next
      case False
      with c(1) have "b0 \<le> c - 1" "c - 1 < c" by simp_all
      with c(3) have "ix ! (c - 1 + 1) < gx ! i" by blast
      moreover have "c - 1 + 1 = c" using False c(1) by simp
      ultimately show ?thesis using ge j by force
    qed
  qed
  have l1: "length a1 = 336" using Cons.prems(6) by (simp add: a1_def)
  from Cons.IH [OF sorted_rest _ c(2) inv' _ l1] c(1) Cons.prems(2,5)
  obtain b' where r: "fill_buckets ix v gx is (c, a1) =
      Inr (b', map (\<lambda>k. a1 ! k @ map ((!) v) (filter (in_bucket ix gx (k + 32)) is)) [0..<336])"
    by auto
  have a1k: "a1 ! k = a0 ! k @ map ((!) v) (filter (in_bucket ix gx (k + 32)) [i])" if k: "k < 336" for k
  proof (cases "cond \<and> k = c - 32")
    case True
    then show ?thesis using bucket [OF k] k Cons.prems(6) by (simp add: a1_def)
  next
    case False
    then have "a1 ! k = a0 ! k" by (auto simp: a1_def)
    then show ?thesis using bucket [OF k] False by simp
  qed
  have "map (\<lambda>k. a1 ! k @ map ((!) v) (filter (in_bucket ix gx (k + 32)) is)) [0..<336]
      = map (\<lambda>k. a0 ! k @ map ((!) v) (filter (in_bucket ix gx (k + 32)) (i # is))) [0..<336]"
    by (rule map_cong [OF refl]) (simp add: a1k)
  with step r show ?case by simp
qed

lemma nth_mk_interp_x: "b < 376 \<Longrightarrow> mk_interp_x bw ! b = real b * bw - bw * 8"
  by (simp add: mk_interp_x_def)

lemma nth_mk_guess_x: "i < 2048 \<Longrightarrow> mk_guess_x off ! i = real i - off"
  by (simp add: mk_guess_x_def)

lemma length_mk_guess_x: "length (mk_guess_x off) = 2048"
  by (simp add: mk_guess_x_def)

lemma nth_shifted_x:
  "aligned s \<Longrightarrow> i < 2048 \<Longrightarrow> shifted_x s o' ! i = real i - offset s + bitwidth s * 0.5 + o'"
  by (simp add: shifted_x_def aligned_def nth_mk_guess_x length_mk_guess_x)

lemma sorted_map_upt:
  assumes "\<And>i j. i \<le> j \<Longrightarrow> j < n \<Longrightarrow> f i \<le> (f j :: real)"
  shows "sorted (map f [0..<n])"
  using assms by (auto simp: sorted_iff_nth_mono)

lemma make_buckets_char:
  assumes al: "aligned s" and bw: "0 < bitwidth s" and len: "2048 \<le> length (vbi s)"
  shows "make_buckets s o' = Inr (map (bucket s o') [0..<336])"
proof -
  define ix where "ix = interp_x s"
  define gx where "gx = shifted_x s o'"
  have mono: "\<forall>b. 32 \<le> b \<and> b < 368 \<longrightarrow> ix ! b < ix ! (b + 1)"
  proof (intro allI impI)
    fix b :: nat assume b: "32 \<le> b \<and> b < 368"
    then have "ix ! b = real b * bitwidth s - bitwidth s * 8"
      "ix ! (b + 1) = real (b + 1) * bitwidth s - bitwidth s * 8"
      using al by (simp_all add: ix_def aligned_def nth_mk_interp_x)
    then show "ix ! b < ix ! (b + 1)" using bw by (simp add: algebra_simps)
  qed
  have so: "sorted (map ((!) gx) [0..<2048])"
    by (rule sorted_map_upt) (simp add: gx_def nth_shifted_x [OF al])
  have "\<forall>i \<in> set [0..<2048]. i < length (vbi s)" using len by simp
  from fill_buckets_char [OF mono so _ _ _ this, of 32 "replicate 336 []"]
  obtain b' where "fill_buckets ix (vbi s) gx [0..<2048] (32, replicate 336 []) =
      Inr (b', map (\<lambda>k. replicate 336 [] ! k @ map ((!) (vbi s)) (filter (in_bucket ix gx (k + 32)) [0..<2048])) [0..<336])"
    by auto
  moreover have "map (\<lambda>k. replicate 336 [] ! k @ map ((!) (vbi s)) (filter (in_bucket ix gx (k + 32)) [0..<2048])) [0..<336]
      = map (bucket s o') [0..<336]"
    by (rule map_cong [OF refl]) (simp add: bucket_def ix_def gx_def)
  ultimately show ?thesis
    by (simp add: make_buckets_def Let_def ix_def gx_def shifted_x_def)
qed

lemma aligned_init: "aligned (init h v fs)"
  by (simp add: aligned_def init_fields)

lemma aligned_example: "aligned example_vbi" "0 < bitwidth example_vbi" "length (vbi example_vbi) = 2048"
  "bitwidth example_vbi = 5.112" "offset example_vbi = 0"
  by (simp_all add: example_vbi_def aligned_init init_fields example_line_def)

lemma nth_example_line: "i < 2048 \<Longrightarrow> vbi example_vbi ! i = real (i mod 256)"
  by (simp add: example_vbi_def init_fields example_line_def)

lemma in_bucket_explicit:
  assumes "aligned s" "k < 336" "i < 2048"
  shows "in_bucket (interp_x s) (shifted_x s o') (k + 32) i \<longleftrightarrow>
           (real (k + 32) - 8) * bitwidth s < real i - offset s + bitwidth s / 2 + o' \<and>
           real i - offset s + bitwidth s / 2 + o' \<le> (real (k + 33) - 8) * bitwidth s"
proof -
  have "interp_x s ! (k + 32) = real (k + 32) * bitwidth s - bitwidth s * 8"
    "interp_x s ! (k + 32 + 1) = real (k + 33) * bitwidth s - bitwidth s * 8"
    using assms(1,2) by (simp_all add: aligned_def nth_mk_interp_x)
  then show ?thesis
    unfolding in_bucket_def nth_shifted_x [OF assms(1,3)] by (simp add: algebra_simps)
qed

text \<open>
  Claim C5, amended. On a decoder whose two grids are those of its bit width and
  offset, with a positive bit width and a line of 2048 samples, the loop fills
  336 buckets, and bucket \<open>k\<close> (bit position \<open>b = k + 32\<close>) holds, in the order
  of the samples, exactly the samples \<open>i\<close> whose shifted position
  \<open>i - offset + bitwidth/2 + o\<close> lies in the interval that is open at
  \<open>interp_x[b]\<close> and closed at \<open>interp_x[b+1]\<close>, where
  \<open>interp_x[b] = (b - 8) * bitwidth\<close>. A sample whose shifted position lies in
  no such interval of the 336 payload bits is put in no bucket.
\<close>

theorem samples_bucketed_by_shifted_position:
  assumes "aligned s" "0 < bitwidth s" "length (vbi s) = 2048"
  shows "\<exists>a. make_buckets s o' = Inr a \<and> length a = 336 \<and>
           (\<forall>k < 336. a ! k =
              map ((!) (vbi s))
                (filter (\<lambda>i. (real (k + 32) - 8) * bitwidth s < real i - offset s + bitwidth s / 2 + o' \<and>
                             real i - offset s + bitwidth s / 2 + o' \<le> (real (k + 33) - 8) * bitwidth s)
                   [0..<2048]))"
proof -
  have m: "make_buckets s o' = Inr (map (bucket s o') [0..<336])"
    using assms by (intro make_buckets_char) simp_all
  have "map (bucket s o') [0..<336] ! k =
      map ((!) (vbi s))
        (filter (\<lambda>i. (real (k + 32) - 8) * bitwidth s < real i - offset s + bitwidth s / 2 + o' \<and>
                     real i - offset s + bitwidth s / 2 + o' \<le> (real (k + 33) - 8) * bitwidth s)
           [0..<2048])" if k: "k < 336" for k
  proof -
    have "filter (in_bucket (interp_x s) (shifted_x s o') (k + 32)) [0..<2048] =
        filter (\<lambda>i. (real (k + 32) - 8) * bitwidth s < real i - offset s + bitwidth s / 2 + o' \<and>
                     real i - offset s + bitwidth s / 2 + o' \<le> (real (k + 33) - 8) * bitwidth s) [0..<2048]"
      by (rule filter_cong [OF refl]) (simp add: in_bucket_explicit [OF assms(1) k])
    then show ?thesis using k by (simp add: bucket_def)
  qed
  with m show ?thesis by simp
qed

theorem samples_bucketed_by_shifted_position_witness:
  "\<exists>a. make_buckets example_vbi 0 = Inr a \<and> length a = 336 \<and>
     (\<forall>k < 336. a ! k =
        map ((!) (vbi example_vbi))
          (filter (\<lambda>i. (real (k + 32) - 8) * bitwidth example_vbi
                          < real i - offset example_vbi + bitwidth example_vbi / 2 + 0 \<and>
                       real i - offset example_vbi + bitwidth example_vbi / 2 + 0
                          \<le> (real (k + 33) - 8) * bitwidth example_vbi)
             [0..<2048]))"
  using samples_bucketed_by_shifted_position [OF aligned_example(1-3), of 0] .

text \<open>
  Claim C5 as stated fails: on the example line (sample \<open>i\<close> has the value
  \<open>i mod 256\<close>, offset 0, bit width 5.112) the first bucket, of bit position
  32, holds sample 121, whose own position 121 is below \<open>interp_x[32] = 122.688\<close>.
\<close>

theorem samples_bucketed_by_shifted_position_counterexample:
  "make_buckets example_vbi 0 = Inr (map (bucket example_vbi 0) [0..<336]) \<and>
   121 \<in> set (map (bucket example_vbi 0) [0..<336] ! 0) \<and>
   121 \<notin> set (spec_bucket example_vbi 32)"
proof -
  have m: "make_buckets example_vbi 0 = Inr (map (bucket example_vbi 0) [0..<336])"
    using aligned_example by (intro make_buckets_char) simp_all
  have "in_bucket (interp_x example_vbi) (shifted_x example_vbi 0) (0 + 32) 121"
    using in_bucket_explicit [OF aligned_example(1), of 0 121 0]
    by (simp add: aligned_example(4,5))
  then have "121 \<in> set (filter (in_bucket (interp_x example_vbi) (shifted_x example_vbi 0) (0 + 32)) [0..<2048])"
    by simp
  then have "vbi example_vbi ! 121 \<in> set (bucket example_vbi 0 0)"
    unfolding bucket_def set_map by (rule imageI)
  then have in_code: "121 \<in> set (map (bucket example_vbi 0) [0..<336] ! 0)"
    by (simp add: nth_example_line)
  have "vbi example_vbi ! i \<noteq> 121"
    if i: "i < 2048" and r: "interp_x example_vbi ! 32 \<le> guess_x example_vbi ! i"
      "guess_x example_vbi ! i < interp_x example_vbi ! (32 + 1)" for i
  proof -
    have "interp_x example_vbi ! 32 = 32 * 5.112 - 5.112 * 8"
      "interp_x example_vbi ! 33 = 33 * 5.112 - 5.112 * 8"
      using aligned_example(1,4) nth_mk_interp_x [of 32 "5.112"] nth_mk_interp_x [of 33 "5.112"]
      by (simp_all add: aligned_def)
    moreover have "guess_x example_vbi ! i = real i"
      using aligned_example(1,5) nth_mk_guess_x [OF i, of 0] by (simp add: aligned_def)
    ultimately have "122 < real i" "real i < 128" using r by simp_all
    then have "122 < i" "i < 128" by linarith+
    then show ?thesis using nth_example_line [OF i] by simp
  qed
  then have "121 \<notin> set (spec_bucket example_vbi 32)"
    by (auto simp: spec_bucket_def)
  with m in_code show ?thesis by simp
qed

lemma length_make_buckets: "make_buckets s x = Inr a \<Longrightarrow> length a = 336"
proof -
  assume m: "make_buckets s x = Inr a"
  define gx where "gx = map (\<lambda>y. y + bitwidth s * 0.5 + x) (guess_x s)"
  from m obtain b where "fill_buckets (interp_x s) (vbi s) gx [0..<2048] (4 * 8, replicate (42 * 8) []) = Inr (b, a)"
    by (auto simp: make_buckets_def Let_def gx_def split: sum.splits)
  from length_fill_buckets [OF this] show ?thesis by simp
qed

lemma length_raw_masks: "length (raw_masks s a) = 42"
  by (simp add: raw_masks_def Let_def)

lemma make_guess_mask_shape:
  assumes "make_guess_mask s x = Inr s'"
  shows "\<exists>a. make_buckets s x = Inr a \<and> (\<forall>k < 336. a ! k \<noteq> []) \<and>
           42 \<le> length (mask0 s) \<and> 42 \<le> length (mask1 s) \<and>
           s' = s\<lparr>mask0 := map (\<lambda>(x, y). x OR y) (zip (map fst (raw_masks s a)) (map snd (raw_masks s a))),
                  mask1 := map (\<lambda>(x, y). x AND y) (zip (map snd (raw_masks s a)) (map fst (raw_masks s a)))\<rparr>"
proof (cases "make_buckets s x")
  case (Inl e)
  with assms show ?thesis by (simp add: make_guess_mask_def)
next
  case (Inr a)
  show ?thesis
  proof (cases "\<exists>x \<in> set a. x = []")
    case True
    with assms Inr show ?thesis by (simp add: make_guess_mask_def)
  next
    case False
    then have ne: "\<forall>k < 336. a ! k \<noteq> []"
      using length_make_buckets [OF Inr] by (metis nth_mem)
    show ?thesis
    proof (cases "length (mask0 s) < 42 \<or> length (mask1 s) < 42")
      case True
      with assms Inr False show ?thesis by (simp add: make_guess_mask_def)
    next
      case l: False
      with assms Inr False ne show ?thesis by (auto simp: make_guess_mask_def Let_def)
    qed
  qed
qed

lemma make_guess_mask_empty_bucket:
  assumes "make_buckets s x = Inr a" "k < 336" "a ! k = []"
  shows "make_guess_mask s x = Inl ValueError"
proof -
  have "a ! k \<in> set a" using length_make_buckets [OF assms(1)] assms(2) by simp
  with assms(3) have "\<exists>x \<in> set a. x = []" by auto
  with assms(1) show ?thesis by (simp add: make_guess_mask_def)
qed

lemma make_guess_mask_total:
  assumes "make_buckets s x = Inr a" "\<forall>k < 336. a ! k \<noteq> []"
    "42 \<le> length (mask0 s)" "42 \<le> length (mask1 s)"
  shows "\<exists>s'. make_guess_mask s x = Inr s'"
proof -
  have "\<not> (\<exists>y \<in> set a. y = [])"
    using assms(2) length_make_buckets [OF assms(1)] by (metis in_set_conv_nth)
  with assms show ?thesis by (simp add: make_guess_mask_def Let_def)
qed





lemma length_make_guess_mask:
  "make_guess_mask s x = Inr s' \<Longrightarrow> length (mask0 s') = 42 \<and> length (mask1 s') = 42"
  using make_guess_mask_shape [of s x s'] by (auto simp: length_raw_masks)

text \<open>a bit interval at least one sample wide that lies inside the line holds a sample\<close>
lemma sample_in_bucket:
  assumes al: "aligned s" and bw: "1 \<le> bitwidth s" and k: "k < 336"
    and lo: "0 \<le> (real (k + 33) - 8) * bitwidth s - (bitwidth s / 2 + o' - offset s)"
    and hi: "(real (k + 33) - 8) * bitwidth s - (bitwidth s / 2 + o' - offset s) < 2048"
  shows "\<exists>i < 2048. in_bucket (interp_x s) (shifted_x s o') (k + 32) i"
proof -
  define u where "u = (real (k + 33) - 8) * bitwidth s - (bitwidth s / 2 + o' - offset s)"
  define i where "i = nat \<lfloor>u\<rfloor>"
  have u: "0 \<le> u" "u < 2048" using lo hi by (simp_all add: u_def)
  have ri: "real i = of_int \<lfloor>u\<rfloor>" using u(1) by (simp add: i_def)
  have i1: "real i \<le> u" and i2: "u < real i + 1" unfolding ri by linarith+
  have "real i < 2048" using i1 u(2) by simp
  then have i3: "i < 2048" by simp
  have "(real (k + 32) - 8) * bitwidth s = (real (k + 33) - 8) * bitwidth s - bitwidth s"
    by (simp add: algebra_simps)
  then have "(real (k + 32) - 8) * bitwidth s < real i - offset s + bitwidth s / 2 + o'"
    using i2 bw by (simp add: u_def)
  moreover have "real i - offset s + bitwidth s / 2 + o' \<le> (real (k + 33) - 8) * bitwidth s"
    using i1 by (simp add: u_def)
  ultimately have "in_bucket (interp_x s) (shifted_x s o') (k + 32) i"
    using in_bucket_explicit [OF al k i3, of o'] by simp
  with i3 show ?thesis by blast
qed

lemma bucket_nonempty_iff:
  "bucket s o' k \<noteq> [] \<longleftrightarrow> (\<exists>i < 2048. in_bucket (interp_x s) (shifted_x s o') (k + 32) i)"
  by (auto simp: bucket_def filter_empty_conv)

lemma lib_ok_example: "lib_ok example_lib"
  by (simp add: lib_ok_def example_lib_def)

lemma example_buckets: "k < 336 \<Longrightarrow> bucket example_vbi 0 k \<noteq> []"
proof -
  assume k: "k < 336"
  have "real k \<le> 335" using k by simp
  then have "(real k + 25) * 5.112 \<le> 360 * 5.112" by (intro mult_right_mono) simp_all
  then have "(real (k + 33) - 8) * 5.112 - (5.112 / 2 + 0 - 0) < 2048"
    by (simp add: algebra_simps)
  moreover have "0 \<le> (real (k + 33) - 8) * 5.112 - (5.112 / 2 + 0 - 0 :: real)" by simp
  ultimately have "\<exists>i < 2048. in_bucket (interp_x example_vbi) (shifted_x example_vbi 0) (k + 32) i"
    using sample_in_bucket [OF aligned_example(1) _ k, of 0] by (simp add: aligned_example(4,5))
  then show ?thesis by (simp add: bucket_nonempty_iff)
qed

lemma example_make_buckets:
  "make_buckets example_vbi 0 = Inr (map (bucket example_vbi 0) [0..<336])"
  using aligned_example by (intro make_buckets_char) simp_all

lemma example_make_guess_mask: "\<exists>s1. make_guess_mask example_vbi 0 = Inr s1"
proof (rule make_guess_mask_total [OF example_make_buckets])
  show "\<forall>k < 336. map (bucket example_vbi 0) [0..<336] ! k \<noteq> []"
    using example_buckets by simp
  show "42 \<le> length (mask0 example_vbi)" "42 \<le> length (mask1 example_vbi)"
    by (simp_all add: example_vbi_def init_fields)
qed

lemma make_guess_mask_fields:
  assumes "make_guess_mask s x = Inr s'"
  shows "vbi s' = vbi s" "guess_x s' = guess_x s" "guess s' = guess s" "gauss_sd s' = gauss_sd s"
    "finders s' = finders s" "it s' = it s" "interp_x s' = interp_x s" "bitwidth s' = bitwidth s"
    "offset s' = offset s" "black s' = black s"
  using make_guess_mask_shape [OF assms] by auto

lemma make_possible_bytes_fields:
  assumes "make_possible_bytes s seed = Inr s'"
  shows "vbi s' = vbi s" "guess_x s' = guess_x s" "guess s' = guess s" "gauss_sd s' = gauss_sd s"
    "finders s' = finders s" "it s' = it s" "mask0 s' = mask0 s" "mask1 s' = mask1 s"
    "target s' = target s" "arrays s' = arrays s" "bytes_ref s' = bytes_ref s"
    "oldbytes_ref s' = oldbytes_ref s" "interp_x s' = interp_x s"
  using assms by (auto simp: make_possible_bytes_def Let_def split: if_splits)

lemma new_buffers_fields:
  "packet_of (new_buffers s) = replicate 42 0"
  "arrays (new_buffers s) (oldbytes_ref (new_buffers s)) = replicate 42 0"
  "oldbytes_ref (new_buffers s) \<noteq> bytes_ref (new_buffers s)"
  "possible_bytes (new_buffers s) = possible_bytes s"
  "half_possible_bytes (new_buffers s) = half_possible_bytes s"
  "target (new_buffers s) = target s" "guess_x (new_buffers s) = guess_x s"
  "guess (new_buffers s) = guess s" "mask0 (new_buffers s) = mask0 s" "mask1 (new_buffers s) = mask1 s"
  "it (new_buffers s) = it s" "finders (new_buffers s) = finders s"
  by (simp_all add: new_buffers_def Let_def packet_of_def)

text \<open>what \<open>prepare\<close> returns, when it returns\<close>
lemma prepare_result:
  assumes "prepare L h s = Inr s3"
  shows "\<exists>s1 s2. make_guess_mask s 0 = Inr s1 \<and>
           make_possible_bytes s1 (class_possible_bytes h) = Inr s2 \<and>
           s3 = new_buffers (s2\<lparr>target := Some (normalise L (gauss L (vbi s2) (gauss_sd s2)))\<rparr>)"
  using assms by (auto simp: prepare_def split: sum.splits)

lemma prepare_ready:
  assumes lib: "lib_ok L" and p: "prepare L h s = Inr s3" and h: "h \<noteq> []"
    and len: "length (vbi s) = length (guess_x s)"
  shows "ready s3"
proof -
  from prepare_result [OF p] obtain s1 s2 where g: "make_guess_mask s 0 = Inr s1"
    and m: "make_possible_bytes s1 (class_possible_bytes h) = Inr s2"
    and s3: "s3 = new_buffers (s2\<lparr>target := Some (normalise L (gauss L (vbi s2) (gauss_sd s2)))\<rparr>)"
    by blast
  have ok: "alphabets_ok s2"
    using m class_possible_bytes_shape(1) class_possible_bytes_nonempty [OF h]
    by (rule make_possible_bytes_ok)
  have "length (normalise L (gauss L (vbi s2) (gauss_sd s2))) = length (vbi s2)"
    using lib by (simp add: lib_ok_def)
  also have "\<dots> = length (guess_x s2)"
    using len make_guess_mask_fields(1,2) [OF g] make_possible_bytes_fields(1,2) [OF m] by simp
  finally have "length (normalise L (gauss L (vbi s2) (gauss_sd s2))) = length (guess_x s2)" .
  with ok show ?thesis
    by (simp add: ready_def s3 new_buffers_fields alphabets_ok_def)
qed

lemma example_prepare: "prepare example_lib example_hammbytes example_vbi = Inr example_ready"
proof -
  from example_make_guess_mask obtain s1 where g: "make_guess_mask example_vbi 0 = Inr s1" by blast
  from length_make_guess_mask [OF g]
  have "\<exists>s2. make_possible_bytes s1 (class_possible_bytes example_hammbytes) = Inr s2"
    by (simp add: make_possible_bytes_def class_possible_bytes_shape(1) Let_def)
  then obtain s2 where "make_possible_bytes s1 (class_possible_bytes example_hammbytes) = Inr s2" by blast
  with g have "\<exists>s3. prepare example_lib example_hammbytes example_vbi = Inr s3"
    by (simp add: prepare_def)
  then show ?thesis by (auto simp: example_ready_def)
qed


lemma position_other_arrays:
  assumes "deconvolve_position L n s = Inr s'" "r \<noteq> bytes_ref s"
  shows "arrays s' r = arrays s r"
proof -
  from position_shape [OF assms(1)] obtain b s1 where
    sr: "search_rel n s s1" and c: "commit n b s1 = Inr s'" by blast
  from c have "arrays s' = (arrays s1)(bytes_ref s1 := (arrays s1 (bytes_ref s1))[n := b])"
    by (auto simp: commit_result)
  then show ?thesis using search_rel_fields(2,8) [OF sr] assms(2) by simp
qed

lemma positions_other_arrays:
  "deconvolve_positions L ns s = Inr s' \<Longrightarrow> r \<noteq> bytes_ref s \<Longrightarrow> arrays s' r = arrays s r"
proof (induction ns arbitrary: s)
  case Nil
  then show ?case by simp
next
  case (Cons n ns)
  from Cons.prems obtain s1 where p: "deconvolve_position L n s = Inr s1"
    and q: "deconvolve_positions L ns s1 = Inr s'"
    by (auto split: sum.splits)
  have "bytes_ref s1 = bytes_ref s" using kept_position [OF p] by (simp add: kept_def)
  with Cons.IH [OF q] Cons.prems(2) position_other_arrays [OF p Cons.prems(2)]
  show ?case by simp
qed

text \<open>
  from two new buffers of zeros, and an alphabet without the byte 0 at some
  position, the loop makes exactly two sweeps
\<close>
lemma two_sweeps_from_zero:
  assumes lib: "lib_ok L" and ok: "ready s"
    and fresh: "oldbytes_ref s \<noteq> bytes_ref s" "arrays s (oldbytes_ref s) = replicate 42 0"
    and len: "length (packet_of s) = 42"
    and m: "m < 42" "0 \<notin> set (possible_bytes s ! m)"
  shows "\<exists>s'. private_deconvolve L s = Inr s' \<and> it s' = it s + 2 \<and> kept s s' \<and>
           oldbytes_ref s' = bytes_ref s'"
proof -
  define s0 where "s0 = s\<lparr>it := it s + 1\<rparr>"
  have k0: "kept s s0" by (simp add: s0_def kept_def packet_of_def)
  have ok0: "ready s0" using kept_ready [OF k0 ok] .
  have "\<forall>n \<in> set [0..<42]. n < 42" by simp
  from positions_ok [OF lib ok0 this] obtain s1 where
    p: "deconvolve_positions L [0..<42] s0 = Inr s1" and k1: "kept s0 s1"
    and v: "\<forall>j < length (packet_of s0).
              j \<in> set [0..<42] \<or> in_alphabet s0 s0 j \<longrightarrow> in_alphabet s0 s1 j" by blast
  note f = sweep_frame_fields [OF sweep_frame_positions [OF p]]
  have "in_alphabet s0 s1 m" using v m(1) len by (simp add: s0_def packet_of_def)
  then have "packet_of s1 ! m \<in> set (possible_bytes s ! m)" by (simp add: in_alphabet_def s0_def)
  with m(2) have nz: "packet_of s1 ! m \<noteq> 0" by auto
  have "arrays s1 (oldbytes_ref s0) = arrays s0 (oldbytes_ref s0)"
    using fresh(1) by (intro positions_other_arrays [OF p]) (simp add: s0_def)
  then have "arrays s1 (oldbytes_ref s1) = replicate 42 0"
    using f fresh(2) by (simp add: s0_def)
  then have "arrays s1 (oldbytes_ref s1) ! m = 0" using m(1) by simp
  with nz have ne: "arrays s1 (bytes_ref s1) \<noteq> arrays s1 (oldbytes_ref s1)"
    by (auto simp: packet_of_def)
  define s2 where "s2 = s1\<lparr>oldbytes_ref := bytes_ref s1\<rparr>"
  have k2: "kept s1 s2" by (simp add: s2_def kept_def packet_of_def)
  have ks2: "kept s s2" using k0 k1 k2 by (blast intro: kept_trans)
  from sweeps_ok [OF lib kept_ready [OF ks2 ok], of 9] obtain s' where
    r: "sweeps L 9 s2 = Inr s'" and k': "kept s2 s'" by blast
  have "sweeps L (Suc 8) s2 = Inr s'" using r by (simp add: eval_nat_numeral)
  from sweeps_aliased [OF _ this] have "it s' = it s2 + 1" "oldbytes_ref s' = bytes_ref s'"
    by (simp_all add: s2_def)
  then have "it s' = it s + 2" "oldbytes_ref s' = bytes_ref s'" using f by (simp_all add: s2_def s0_def)
  have "sweeps L (Suc 9) s = Inr s'"
    by (subst sweeps.simps(2)) (use p ne r in \<open>simp add: s0_def s2_def\<close>)
  moreover have "(10::nat) = Suc 9" by simp
  ultimately have "private_deconvolve L s = Inr s'"
    unfolding private_deconvolve_def by (simp only:)
  note this \<open>it s' = it s + 2\<close> \<open>oldbytes_ref s' = bytes_ref s'\<close>
  moreover have "kept s s'" using ks2 k' by (rule kept_trans)
  ultimately show ?thesis by blast
qed

lemma masked_subset: "set (masked s b n) \<subseteq> set b"
  by (auto simp: masked_def)

lemma class_alphabet_without_zero:
  assumes "make_possible_bytes s (class_possible_bytes h) = Inr s'"
  shows "0 \<notin> set (possible_bytes s' ! 2)"
proof -
  have "possible_bytes s' ! 2 =
      (if masked s (class_possible_bytes h ! 2) 2 \<noteq> [] then masked s (class_possible_bytes h ! 2) 2
       else class_possible_bytes h ! 2)"
    by (rule make_possible_bytes_result(4) [OF assms]) (simp add: class_possible_bytes_shape(1))
  moreover have "class_possible_bytes h ! 2 = paritybytes"
    by (rule class_possible_bytes_shape(3)) simp_all
  ultimately have "set (possible_bytes s' ! 2) \<subseteq> set paritybytes"
    using masked_subset [of s paritybytes 2] by auto
  with zero_not_parity show ?thesis by auto
qed

text \<open>the first pass of \<open>deconvolve\<close> always makes two sweeps\<close>
lemma prepared_two_sweeps:
  assumes lib: "lib_ok L" and p: "prepare L h s = Inr s3" and h: "h \<noteq> []"
    and len: "length (vbi s) = length (guess_x s)"
  shows "\<exists>s4. private_deconvolve L s3 = Inr s4 \<and> it s4 = it s3 + 2 \<and> kept s3 s4 \<and>
           oldbytes_ref s4 = bytes_ref s4"
proof -
  from prepare_result [OF p] obtain s1 s2 where
    m: "make_possible_bytes s1 (class_possible_bytes h) = Inr s2"
    and s3: "s3 = new_buffers (s2\<lparr>target := Some (normalise L (gauss L (vbi s2) (gauss_sd s2)))\<rparr>)"
    by blast
  have z: "0 \<notin> set (possible_bytes s3 ! 2)"
    using class_alphabet_without_zero [OF m] by (simp add: s3 new_buffers_fields)
  show ?thesis
    by (rule two_sweeps_from_zero [OF lib prepare_ready [OF lib p h len] _ _ _ _ z])
      (simp_all add: s3 new_buffers_fields)
qed

text \<open>
  Claim C9. A call of \<open>_deconvolve\<close> that returns has made one or two sweeps: the
  iteration counter grows by at least 1 and at most 2. After a first sweep that
  does not stop, \<open>_oldbytes\<close> is bound to the array of \<open>_bytes\<close>, so the
  comparison after the second sweep compares the array with itself
  (lemma \<open>sweeps_aliased\<close>) and the loop ends, whatever the second sweep wrote;
  after two sweeps both attributes name one array.
\<close>

theorem deconvolve_at_most_two_sweeps:
  assumes "private_deconvolve L s = Inr s'"
  shows "it s < it s' \<and> it s' \<le> it s + 2 \<and> (it s' = it s + 2 \<longrightarrow> oldbytes_ref s' = bytes_ref s')"
  using sweeps_count [of L 9 s s'] assms by (auto simp: private_deconvolve_def eval_nat_numeral)

text \<open>
  On the example line, in the state in which \<open>deconvolve\<close> calls it,
  \<open>_deconvolve\<close> returns after exactly two sweeps.
\<close>

theorem deconvolve_at_most_two_sweeps_witness:
  "\<exists>s'. private_deconvolve example_lib example_ready = Inr s' \<and>
        it s' = it example_ready + 2 \<and>
        it example_ready < it s' \<and> it s' \<le> it example_ready + 2 \<and>
        (it s' = it example_ready + 2 \<longrightarrow> oldbytes_ref s' = bytes_ref s')"
proof -
  have "example_hammbytes \<noteq> []" by (simp add: example_hammbytes_def)
  moreover have "length (vbi example_vbi) = length (guess_x example_vbi)"
    using aligned_example(1,3) by (simp add: aligned_def length_mk_guess_x)
  ultimately obtain s' where r: "private_deconvolve example_lib example_ready = Inr s'"
    and i: "it s' = it example_ready + 2"
    using prepared_two_sweeps [OF lib_ok_example example_prepare] by blast
  from deconvolve_at_most_two_sweeps [OF r] r i show ?thesis by blast
qed























end
